theory Spec2Isabelle
  imports Main "HOL-Library.Word" "HOL-Library.Sublist"
begin

unbundle bit_operations_syntax

section \<open>Identifiers: \<open>str(uuid.uuid4()).replace('-', '').upper()[:24]\<close>\<close>

text \<open>
  The script draws every identifier from \<open>uuid.uuid4()\<close>. The sixteen random bytes of one
  draw are a \<open>128 word\<close> (big-endian, as \<open>int.from_bytes\<close> reads them); the source of
  randomness is a stream of such draws, consumed in program order.
\<close>

type_synonym rng = "nat \<Rightarrow> 128 word"

text \<open>\<open>UUID(bytes=..., version=4)\<close>: the variant bits become \<open>10\<close>, the version nibble 4.\<close>

definition uuid4_int :: "128 word \<Rightarrow> 128 word" where
  "uuid4_int r =
     (let i1 = r AND NOT (push_bit 48 0xc000);
          i2 = i1 OR push_bit 48 0x8000;
          i3 = i2 AND NOT (push_bit 64 0xf000);
          i4 = i3 OR push_bit 76 4
      in i4)"

definition uuid4 :: "rng \<Rightarrow> 128 word \<times> rng" where
  "uuid4 g = (uuid4_int (g 0), (\<lambda>n. g (Suc n)))"

definition hexdigit :: "nat \<Rightarrow> char" where
  "hexdigit n = ''0123456789abcdef'' ! n"

text \<open>\<open>'%032x' % int\<close>: thirty-two lowercase hexadecimal digits, most significant first.\<close>

definition hex32 :: "128 word \<Rightarrow> string" where
  "hex32 w = map (\<lambda>k. hexdigit (unat (drop_bit (4 * (31 - k)) w AND 0xf))) [0..<32]"

text \<open>\<open>str(uuid)\<close>: the digits grouped 8-4-4-4-12 with hyphens.\<close>

definition uuid_str :: "128 word \<Rightarrow> string" where
  "uuid_str w =
     (let h = hex32 w
      in take 8 h @ ''-'' @ take 4 (drop 8 h) @ ''-'' @ take 4 (drop 12 h) @ ''-'' @
         take 4 (drop 16 h) @ ''-'' @ drop 20 h)"

text \<open>\<open>s.replace('-', '')\<close> deletes every hyphen.\<close>

definition remove_hyphens :: "string \<Rightarrow> string" where
  "remove_hyphens s = filter (\<lambda>c. c \<noteq> CHR ''-'') s"

text \<open>\<open>s.upper()\<close> on ASCII text: the letters a-z move to A-Z, everything else stays.\<close>

definition upper_char :: "char \<Rightarrow> char" where
  "upper_char c =
     (let n = (of_char c :: nat)
      in if of_char CHR ''a'' \<le> n \<and> n \<le> of_char CHR ''z'' then char_of (n - 32) else c)"

definition upper :: "string \<Rightarrow> string" where
  "upper s = map upper_char s"

definition ident_of :: "128 word \<Rightarrow> string" where
  "ident_of u = take 24 (upper (remove_hyphens (uuid_str u)))"

text \<open>One evaluation of \<open>str(uuid.uuid4()).replace('-', '').upper()[:24]\<close>.\<close>

definition new_id :: "rng \<Rightarrow> string \<times> rng" where
  "new_id g = (case uuid4 g of (u, g') \<Rightarrow> (ident_of u, g'))"

section \<open>Strings and regular-expression searches\<close>

text \<open>The document and every pattern are lists of characters.\<close>

definition nl :: string where
  "nl = [CHR 0x0A]"

definition tab :: string where
  "tab = [CHR 0x09]"

text \<open>\<open>sep.join(xs)\<close>.\<close>

fun join :: "string \<Rightarrow> string list \<Rightarrow> string" where
  "join sep [] = []"
| "join sep [x] = x"
| "join sep (x # y # ys) = x @ sep @ join sep (y # ys)"

text \<open>\<open>content[:pos] + new + content[pos:]\<close>; Python slices clamp as \<open>take\<close> and \<open>drop\<close> do.\<close>

definition insert_at :: "nat \<Rightarrow> string \<Rightarrow> string \<Rightarrow> string" where
  "insert_at pos new content = take pos content @ new @ drop pos content"

text \<open>
  A match object is the pair of its start and end offsets; the script only tests it for
  truth and reads \<open>end()\<close>.
\<close>

type_synonym match = "nat \<times> nat"

definition m_end :: "match \<Rightarrow> nat" where
  "m_end m = snd m"

text \<open>
  \<open>re.search\<close> of a pattern without metacharacters: the leftmost position where the
  literal text starts; \<open>i\<close> is the offset of the text still to be scanned.
\<close>

fun find_from :: "string \<Rightarrow> string \<Rightarrow> nat \<Rightarrow> nat option" where
  "find_from pat [] i = (if pat = [] then Some i else None)"
| "find_from pat (x # xs) i =
     (if prefix pat (x # xs) then Some i else find_from pat xs (Suc i))"

definition search_literal :: "string \<Rightarrow> string \<Rightarrow> match option" where
  "search_literal pat text =
     (case find_from pat text 0 of None \<Rightarrow> None | Some s \<Rightarrow> Some (s, s + length pat))"

text \<open>
  \<open>re.search(head + '.*?' + tail, text, re.DOTALL)\<close> for literal \<open>head\<close> and \<open>tail\<close>:
  the leftmost start at which \<open>head\<close> matches and \<open>tail\<close> occurs somewhere after it; the
  lazy \<open>.*?\<close> (any character, line breaks included) stops at the first such \<open>tail\<close>.
  A start where \<open>head\<close> matches but no \<open>tail\<close> follows fails and the scan moves on.
\<close>

fun search_lazy_from :: "string \<Rightarrow> string \<Rightarrow> string \<Rightarrow> nat \<Rightarrow> match option" where
  "search_lazy_from hd_pat tl_pat [] i =
     (if hd_pat = [] \<and> tl_pat = [] then Some (i, i) else None)"
| "search_lazy_from hd_pat tl_pat (x # xs) i =
     (if prefix hd_pat (x # xs) then
        (case find_from tl_pat (drop (length hd_pat) (x # xs)) 0 of
           Some j \<Rightarrow> Some (i, i + length hd_pat + j + length tl_pat)
         | None \<Rightarrow> search_lazy_from hd_pat tl_pat xs (Suc i))
      else search_lazy_from hd_pat tl_pat xs (Suc i))"

subsection \<open>The four anchor patterns\<close>

definition file_ref_head :: string where
  "file_ref_head = ''FF1A4CE429A1A2D000000123 /* ProfileView.swift */''"

definition file_ref_tail :: string where
  \<open>file_ref_tail = ''sourceTree = "<group>";''\<close>

definition group_anchor :: string where
  "group_anchor = ''B6A2F53817229565D50548F7 /* EventPhotosViewModel.swift */,''"

definition sources_anchor :: string where
  "sources_anchor = ''FF1A4CE429A1A2D000000224 /* ProfileView.swift in Sources */,''"

definition build_file_header :: string where
  "build_file_header = ''/* Begin PBXBuildFile section */''"

definition search_file_ref :: "string \<Rightarrow> match option" where
  "search_file_ref content = search_lazy_from file_ref_head file_ref_tail content 0"

definition search_group :: "string \<Rightarrow> match option" where
  "search_group content = search_literal group_anchor content"

definition search_sources :: "string \<Rightarrow> match option" where
  "search_sources content = search_literal sources_anchor content"

definition search_build_file :: "string \<Rightarrow> match option" where
  "search_build_file content = search_literal build_file_header content"

section \<open>The patcher\<close>

subsection \<open>Entries and generated lines\<close>

text \<open>An entry is a pair \<open>(filename, file_id)\<close>; the three identifiers are drawn in list order.\<close>

type_synonym entry = "string \<times> string"

definition files_to_add :: "rng \<Rightarrow> entry list \<times> rng" where
  "files_to_add g =
     (case new_id g of (id1, g1) \<Rightarrow>
      case new_id g1 of (id2, g2) \<Rightarrow>
      case new_id g2 of (id3, g3) \<Rightarrow>
        ([(''BlockedUsersManager.swift'', id1),
          (''BlockedUsersView.swift'', id2),
          (''TermsOfService.swift'', id3)], g3))"

definition file_ref_line :: "string \<Rightarrow> string \<Rightarrow> string" where
  \<open>file_ref_line filename file_id =
     tab @ tab @ file_id @ '' /* '' @ filename @
     '' */ = {isa = PBXFileReference; lastKnownFileType = sourcecode.swift; path = '' @
     filename @ ''; sourceTree = "<group>"; };''\<close>

definition group_line :: "string \<Rightarrow> string \<Rightarrow> string" where
  "group_line filename file_id =
     tab @ tab @ tab @ tab @ file_id @ '' /* '' @ filename @ '' */,''"

definition build_file_entry :: "string \<Rightarrow> string \<Rightarrow> string \<Rightarrow> string" where
  "build_file_entry build_id filename file_id =
     tab @ tab @ build_id @ '' /* '' @ filename @
     '' in Sources */ = {isa = PBXBuildFile; fileRef = '' @ file_id @ '' /* '' @ filename @
     '' */; };''"

definition sources_line :: "string \<Rightarrow> string \<Rightarrow> string" where
  "sources_line build_id filename =
     tab @ tab @ tab @ tab @ build_id @ '' /* '' @ filename @ '' in Sources */,''"

subsection \<open>The three insertion steps\<close>

definition new_file_refs :: "entry list \<Rightarrow> string list" where
  "new_file_refs files = map (\<lambda>(filename, file_id). file_ref_line filename file_id) files"

definition add_file_refs :: "entry list \<Rightarrow> string \<Rightarrow> string" where
  "add_file_refs files content =
     (case search_file_ref content of
        None \<Rightarrow> content
      | Some m \<Rightarrow> insert_at (m_end m) (nl @ join nl (new_file_refs files)) content)"

definition new_group_refs :: "entry list \<Rightarrow> string list" where
  "new_group_refs files = map (\<lambda>(filename, file_id). group_line filename file_id) files"

definition add_group_refs :: "entry list \<Rightarrow> string \<Rightarrow> string" where
  "add_group_refs files content =
     (case search_group content of
        None \<Rightarrow> content
      | Some m \<Rightarrow> insert_at (m_end m) (nl @ join nl (new_group_refs files)) content)"

text \<open>
  The loop over the entries inside the build-phase step. Its state is the document, the
  list \<open>new_build_refs\<close> and the random stream; every round draws a build identifier,
  searches the current document for the section header and appends one membership line.
\<close>

fun build_loop :: "entry list \<Rightarrow> string \<Rightarrow> string list \<Rightarrow> rng \<Rightarrow> string \<times> string list \<times> rng" where
  "build_loop [] content new_build_refs g = (content, new_build_refs, g)"
| "build_loop ((filename, file_id) # rest) content new_build_refs g =
     (case new_id g of (build_id, g') \<Rightarrow>
        let entry = build_file_entry build_id filename file_id;
            content' = (case search_build_file content of
                          None \<Rightarrow> content
                        | Some bm \<Rightarrow> insert_at (m_end bm) (nl @ entry) content)
        in build_loop rest content' (new_build_refs @ [sources_line build_id filename]) g')"

text \<open>
  The build-phase step: \<open>sources_match\<close> is computed once, on the document as it is before
  the loop, and its end offset is used after the loop on the document the loop returns.
\<close>

definition add_sources :: "entry list \<Rightarrow> string \<Rightarrow> rng \<Rightarrow> string \<times> rng" where
  "add_sources files content g =
     (case search_sources content of
        None \<Rightarrow> (content, g)
      | Some sm \<Rightarrow>
          (case build_loop files content [] g of (content', new_build_refs, g') \<Rightarrow>
             (insert_at (m_end sm) (nl @ join nl new_build_refs) content', g')))"

text \<open>The text transformation between the read and the write, with the entries it used.\<close>

definition patch :: "string \<Rightarrow> rng \<Rightarrow> string \<times> entry list" where
  "patch content g =
     (case files_to_add g of (files, g1) \<Rightarrow>
        let content1 = add_file_refs files content;
            content2 = add_group_refs files content1
        in (fst (add_sources files content2 g1), files))"

subsection \<open>The script with its file and its output\<close>

text \<open>
  The world of the script is the content of the target file (\<open>None\<close> when it cannot be opened and read),
  whether it can be opened for writing, and the effects performed so far, oldest first.
\<close>

datatype io_error = Read_failed | Write_failed

datatype event = Ev_read | Ev_write string | Ev_print string

record world =
  target :: "string option"
  writable :: bool
  events :: "event list"

definition emit :: "event \<Rightarrow> world \<Rightarrow> world" where
  "emit e w = w\<lparr>events := events w @ [e]\<rparr>"

definition print_line :: "string \<Rightarrow> world \<Rightarrow> world" where
  "print_line s w = emit (Ev_print s) w"

definition entry_message :: "entry \<Rightarrow> string" where
  "entry_message e = (case e of (filename, file_id) \<Rightarrow> ''  - '' @ filename @ '' ('' @ file_id @ '')'')"

definition confirmation :: "entry list \<Rightarrow> string list" where
  "confirmation files = ''Successfully added files to Xcode project:'' # map entry_message files"

fun print_all :: "string list \<Rightarrow> world \<Rightarrow> world" where
  "print_all [] w = w"
| "print_all (s # ss) w = print_all ss (print_line s w)"

text \<open>
  The whole run. An unhandled exception ends it at once (\<open>Inl\<close>); \<open>Inr ()\<close> is the normal
  exit.
\<close>

definition main :: "world \<Rightarrow> rng \<Rightarrow> (io_error + unit) \<times> world" where
  "main w g =
     (case target w of
        None \<Rightarrow> (Inl Read_failed, w)
      | Some content \<Rightarrow>
          let w1 = emit Ev_read w;
              (content', files) = patch content g
          in if \<not> writable w1 then (Inl Write_failed, w1)
             else
               let w2 = emit (Ev_write content') (w1\<lparr>target := Some content'\<rparr>)
               in (Inr (), print_all (confirmation files) w2))"

definition stdout :: "world \<Rightarrow> string list" where
  "stdout w = concat (map (\<lambda>e. case e of Ev_print s \<Rightarrow> [s] | _ \<Rightarrow> []) (events w))"

definition writes :: "world \<Rightarrow> string list" where
  "writes w = concat (map (\<lambda>e. case e of Ev_write s \<Rightarrow> [s] | _ \<Rightarrow> []) (events w))"

subsection \<open>Notions used to state the properties\<close>

definition lower_hex :: "char set" where
  "lower_hex = set ''0123456789abcdef''"

definition upper_hex :: "char set" where
  "upper_hex = set ''0123456789ABCDEF''"

text \<open>The build identifiers that the loop draws for a list of entries, in order.\<close>

fun build_ids :: "entry list \<Rightarrow> rng \<Rightarrow> string list" where
  "build_ids [] g = []"
| "build_ids (e # rest) g = (case new_id g of (build_id, g') \<Rightarrow> build_id # build_ids rest g')"

text \<open>The membership lines and the declaration lines of the build-phase step.\<close>

definition new_build_refs :: "entry list \<Rightarrow> rng \<Rightarrow> string list" where
  "new_build_refs files g =
     map (\<lambda>(build_id, filename, file_id). sources_line build_id filename) (zip (build_ids files g) files)"

definition build_file_entries :: "entry list \<Rightarrow> rng \<Rightarrow> string list" where
  "build_file_entries files g =
     map (\<lambda>(build_id, filename, file_id). build_file_entry build_id filename file_id)
       (zip (build_ids files g) files)"

text \<open>The entries of a run and the four blocks of text that a run can insert.\<close>

definition entries :: "rng \<Rightarrow> entry list" where
  "entries g = fst (files_to_add g)"

definition file_refs_block :: "rng \<Rightarrow> string" where
  "file_refs_block g = nl @ join nl (new_file_refs (entries g))"

definition group_block :: "rng \<Rightarrow> string" where
  "group_block g = nl @ join nl (new_group_refs (entries g))"

definition build_file_block :: "rng \<Rightarrow> string" where
  "build_file_block g =
     concat (map (\<lambda>entry. nl @ entry) (rev (build_file_entries (entries g) (snd (files_to_add g)))))"

definition sources_block :: "rng \<Rightarrow> string" where
  "sources_block g = nl @ join nl (new_build_refs (entries g) (snd (files_to_add g)))"

text \<open>
  The document at two moments of a run: when the build-phase step starts (after the first
  two steps), and when its loop over the entries has ended.
\<close>

definition before_sources :: "string \<Rightarrow> rng \<Rightarrow> string" where
  "before_sources doc g = add_group_refs (entries g) (add_file_refs (entries g) doc)"

definition after_loop :: "string \<Rightarrow> rng \<Rightarrow> string" where
  "after_loop doc g =
     fst (build_loop (entries g) (before_sources doc g) [] (snd (files_to_add g)))"

text \<open>
  The identifiers of a run that reaches the loop: the three entry identifiers, then the
  three build identifiers.
\<close>

definition identifiers :: "rng \<Rightarrow> string list" where
  "identifiers g = map snd (entries g) @ build_ids (entries g) (snd (files_to_add g))"

text \<open>The number of line breaks of a text.\<close>

definition line_breaks :: "string \<Rightarrow> nat" where
  "line_breaks s = count_list s (CHR 0x0A)"

subsection \<open>Sample inputs\<close>

text \<open>Two streams of random draws that differ only in the low 16 bits of every draw.\<close>

definition rng_a :: rng where
  "rng_a n = word_of_nat (Suc n) * 0x0123456789abcdef0123456789abcdef"

definition rng_b :: rng where
  "rng_b n = rng_a n XOR 0xffff"

text \<open>A document without any anchor, and a world holding it.\<close>

definition doc_plain :: string where
  "doc_plain = ''// !$*UTF8*$!'' @ nl @ ''{ objects = { }; }'' @ nl"

definition world_of :: "string \<Rightarrow> world" where
  "world_of content = \<lparr>target = Some content, writable = True, events = []\<rparr>"

definition world_missing :: world where
  "world_missing = \<lparr>target = None, writable = True, events = []\<rparr>"

text \<open>
  Small project files: one with the section header and all three anchors, one without the
  section header, one without the group anchor.
\<close>

definition header_lines :: string where
  "header_lines =
     ''/* Begin PBXBuildFile section */'' @ nl @ ''/* End PBXBuildFile section */'' @ nl"

definition file_ref_entry :: string where
  \<open>file_ref_entry =
     tab @ tab @ ''FF1A4CE429A1A2D000000123 /* ProfileView.swift */ = {isa = PBXFileReference; '' @
     ''path = ProfileView.swift; sourceTree = "<group>"; };'' @ nl\<close>

definition group_entry :: string where
  "group_entry =
     tab @ tab @ tab @ tab @ ''B6A2F53817229565D50548F7 /* EventPhotosViewModel.swift */,'' @ nl"

definition sources_entry :: string where
  "sources_entry =
     tab @ tab @ tab @ tab @ ''FF1A4CE429A1A2D000000224 /* ProfileView.swift in Sources */,'' @ nl"

definition doc_full :: string where
  "doc_full = header_lines @ file_ref_entry @ group_entry @ sources_entry"

definition doc_no_header :: string where
  "doc_no_header = file_ref_entry @ group_entry @ sources_entry"

definition doc_no_group :: string where
  "doc_no_group = header_lines @ file_ref_entry @ sources_entry"

section \<open>Properties of the identifiers\<close>

lemma hexdigit_lower: "n < 16 \<Longrightarrow> hexdigit n \<in> lower_hex"
  unfolding hexdigit_def lower_hex_def by (rule nth_mem) simp

lemma nibble_lt16: "unat ((w :: 128 word) AND 0xf) < 16"
proof -
  have "unat (w AND 0xf) \<le> unat (0xf :: 128 word)"
    by (rule word_and_le1 [THEN word_le_nat_alt [THEN iffD1]])
  then show ?thesis by simp
qed

lemma length_hex32: "length (hex32 w) = 32"
  by (simp add: hex32_def)

lemma set_hex32: "set (hex32 w) \<subseteq> lower_hex"
  by (auto simp: hex32_def intro!: hexdigit_lower nibble_lt16)

lemma hyphen_not_lower: "CHR ''-'' \<notin> lower_hex"
  by (simp add: lower_hex_def)

lemma filter_no_hyphen: "set xs \<subseteq> lower_hex \<Longrightarrow> filter (\<lambda>c. c \<noteq> CHR ''-'') xs = xs"
  using hyphen_not_lower by (induction xs) auto

lemma regroup_8_4_4_4_12:
  "take 8 h @ take 4 (drop 8 h) @ take 4 (drop 12 h) @ take 4 (drop 16 h) @ drop 20 h = h"
proof -
  have "take 4 (drop 16 h) @ drop 20 h = drop 16 h"
    using append_take_drop_id [of 4 "drop 16 h"] by simp
  moreover have "take 4 (drop 12 h) @ drop 16 h = drop 12 h"
    using append_take_drop_id [of 4 "drop 12 h"] by simp
  moreover have "take 4 (drop 8 h) @ drop 12 h = drop 8 h"
    using append_take_drop_id [of 4 "drop 8 h"] by simp
  ultimately show ?thesis by simp
qed

lemma remove_hyphens_uuid_str: "remove_hyphens (uuid_str w) = hex32 w"
proof -
  have sub: "\<And>n m. set (take n (drop m (hex32 w))) \<subseteq> lower_hex"
    "\<And>n. set (take n (hex32 w)) \<subseteq> lower_hex"
    "\<And>m. set (drop m (hex32 w)) \<subseteq> lower_hex"
    using set_hex32 [of w] by (meson set_take_subset set_drop_subset subset_trans)+
  show ?thesis
    by (simp add: remove_hyphens_def uuid_str_def Let_def filter_no_hyphen sub regroup_8_4_4_4_12)
qed

lemma upper_lower_hex: "list_all (\<lambda>c. upper_char c \<in> upper_hex) ''0123456789abcdef''"
  unfolding upper_hex_def by code_simp

lemma upper_char_hex: "c \<in> lower_hex \<Longrightarrow> upper_char c \<in> upper_hex"
  using upper_lower_hex unfolding lower_hex_def list_all_iff by blast

lemma length_ident_of: "length (ident_of u) = 24"
  by (simp add: ident_of_def upper_def remove_hyphens_uuid_str length_hex32)

lemma set_ident_of: "set (ident_of u) \<subseteq> upper_hex"
proof -
  have "set (ident_of u) \<subseteq> set (upper (hex32 u))"
    by (simp add: ident_of_def remove_hyphens_uuid_str set_take_subset)
  also have "\<dots> \<subseteq> upper_hex"
    using set_hex32 [of u] by (auto simp: upper_def intro: upper_char_hex)
  finally show ?thesis .
qed

lemma new_id_eq: "new_id g = (ident_of (uuid4_int (g 0)), (\<lambda>n. g (Suc n)))"
  by (simp add: new_id_def uuid4_def)




lemma files_to_add_eq:
  "files_to_add g =
     ([(''BlockedUsersManager.swift'', ident_of (uuid4_int (g 0))),
       (''BlockedUsersView.swift'', ident_of (uuid4_int (g (Suc 0)))),
       (''TermsOfService.swift'', ident_of (uuid4_int (g (Suc (Suc 0)))))], (\<lambda>n. g (Suc (Suc (Suc n)))))"
  unfolding files_to_add_def new_id_eq by simp

lemma build_ids_well_formed:
  "list_all (\<lambda>i. length i = 24 \<and> set i \<subseteq> upper_hex) (build_ids files g)"
proof (induction files arbitrary: g)
  case Nil
  show ?case by simp
next
  case (Cons e rest)
  show ?case
    using Cons.IH [of "\<lambda>n. g (Suc n)"]
    by (simp add: new_id_eq length_ident_of set_ident_of)
qed


text \<open>
  Claim C6. Every identifier the program generates is exactly 24 characters long and
  consists of uppercase hexadecimal digits only: this holds for each evaluation of the
  identifier expression, hence for the three entry identifiers and for the build
  identifiers drawn in the loop.
\<close>

theorem identifiers_are_24_upper_hex:
  "length (fst (new_id g)) = 24 \<and> set (fst (new_id g)) \<subseteq> upper_hex \<and>
   list_all (\<lambda>(filename, file_id). length file_id = 24 \<and> set file_id \<subseteq> upper_hex)
     (fst (files_to_add g)) \<and>
   list_all (\<lambda>build_id. length build_id = 24 \<and> set build_id \<subseteq> upper_hex)
     (build_ids (fst (files_to_add g)) (snd (files_to_add g)))"
  by (simp add: new_id_eq files_to_add_eq length_ident_of set_ident_of build_ids_well_formed)

section \<open>Insertion only adds text\<close>

lemma length_insert_at: "length (insert_at pos new content) = length content + length new"
  by (simp add: insert_at_def)

lemma subseq_middle: "subseq (a @ b) (a @ x @ b)"
  by (simp add: subseq_append' subseq_drop_many)

lemma subseq_insert_at: "subseq content (insert_at pos new content)"
  using subseq_middle [of "take pos content" "drop pos content" new]
  by (simp add: insert_at_def)

lemma subseq_add_file_refs: "subseq content (add_file_refs files content)"
  by (simp add: add_file_refs_def subseq_insert_at split: option.split)

lemma subseq_add_group_refs: "subseq content (add_group_refs files content)"
  by (simp add: add_group_refs_def subseq_insert_at split: option.split)

lemma subseq_build_loop: "subseq content (fst (build_loop files content refs g))"
proof (induction files arbitrary: content refs g)
  case Nil
  show ?case by simp
next
  case (Cons e rest)
  obtain filename file_id where e: "e = (filename, file_id)" by (cases e)
  obtain build_id g' where n: "new_id g = (build_id, g')" by (cases "new_id g")
  let ?entry = "build_file_entry build_id filename file_id"
  let ?c = "case search_build_file content of None \<Rightarrow> content
            | Some bm \<Rightarrow> insert_at (m_end bm) (nl @ ?entry) content"
  have step: "subseq content ?c"
    by (simp add: subseq_insert_at split: option.split)
  have "subseq ?c (fst (build_loop rest ?c (refs @ [sources_line build_id filename]) g'))"
    by (rule Cons.IH)
  with step have "subseq content (fst (build_loop rest ?c (refs @ [sources_line build_id filename]) g'))"
    by (rule subseq_order.trans)
  then show ?case by (simp add: e n Let_def)
qed

lemma subseq_add_sources: "subseq content (fst (add_sources files content g))"
proof (cases "search_sources content")
  case None
  then show ?thesis by (simp add: add_sources_def)
next
  case (Some sm)
  obtain c' refs g' where b: "build_loop files content [] g = (c', refs, g')"
    by (cases "build_loop files content [] g") auto
  have "subseq content c'"
    using subseq_build_loop [of content files "[]" g] by (simp add: b)
  moreover have "subseq c' (insert_at (m_end sm) (nl @ join nl refs) c')"
    by (rule subseq_insert_at)
  ultimately have "subseq content (insert_at (m_end sm) (nl @ join nl refs) c')"
    by (rule subseq_order.trans)
  then show ?thesis by (simp add: add_sources_def Some b)
qed

lemma patch_eq:
  "patch content g =
     (fst (add_sources (fst (files_to_add g))
             (add_group_refs (fst (files_to_add g)) (add_file_refs (fst (files_to_add g)) content))
             (snd (files_to_add g))),
      fst (files_to_add g))"
  by (simp add: patch_def Let_def split: prod.split)

text \<open>
  Claim C8. The transformation only inserts text: the output is at least as long as the
  input, and the input is a subsequence of the output (no character of the input is
  deleted or altered).
\<close>

theorem patch_only_inserts:
  "length content \<le> length (fst (patch content g)) \<and> subseq content (fst (patch content g))"
proof -
  let ?files = "fst (files_to_add g)"
  have "subseq content (add_file_refs ?files content)"
    by (rule subseq_add_file_refs)
  also have "subseq \<dots> (add_group_refs ?files (add_file_refs ?files content))"
    by (rule subseq_add_group_refs)
  also have "subseq \<dots> (fst (patch content g))"
    by (simp add: patch_eq subseq_add_sources)
  finally have s: "subseq content (fst (patch content g))" .
  then have "length content \<le> length (fst (patch content g))"
    by (rule list_emb_length)
  with s show ?thesis by simp
qed

section \<open>Which bits of a draw an identifier keeps\<close>


lemma ident_of_eq:
  "ident_of u = map (\<lambda>k. upper_char (hexdigit (unat (drop_bit (4 * (31 - k)) u AND 0xf)))) [0..<24]"
proof -
  have "take 24 (map f [0..<32]) = map f [0..<24]" for f :: "nat \<Rightarrow> char"
    by (simp add: take_map)
  then show ?thesis
    by (simp add: ident_of_def remove_hyphens_uuid_str upper_def hex32_def take_map comp_def)
qed

lemma low16: "bit (0xffff :: 128 word) n \<longleftrightarrow> n < 16"
proof -
  have e: "(0xffff :: 128 word) = mask 16" by (simp add: mask_eq_exp_minus_1)
  show ?thesis unfolding e by (auto simp: bit_mask_iff)
qed

lemma bit_masked_xor:
  fixes r m a b c d :: "128 word"
  assumes "\<not> bit m n"
  shows "bit (((((r XOR m) AND a) OR b) AND c) OR d) n = bit ((((r AND a) OR b) AND c) OR d) n"
  using assms by (simp add: bit_or_iff bit_and_iff bit_xor_iff)

lemma bit_uuid4_int_high:
  assumes "32 \<le> n"
  shows "bit (uuid4_int (r XOR 0xffff)) n = bit (uuid4_int r) n"
proof -
  have "\<not> n < 16" using assms by simp
  with low16 [of n] have "\<not> bit (0xffff :: 128 word) n" by blast
  then show ?thesis
    unfolding uuid4_int_def Let_def by (rule bit_masked_xor)
qed

lemma drop_low: "32 \<le> n \<Longrightarrow> drop_bit n (uuid4_int (r XOR 0xffff)) = drop_bit n (uuid4_int r)"
  by (rule bit_word_eqI) (simp add: bit_drop_bit_eq bit_uuid4_int_high)

lemma low_bits_discarded: "ident_of (uuid4_int (r XOR 0xffff)) = ident_of (uuid4_int r)"
  unfolding ident_of_eq by (rule map_cong [OF refl]) (simp add: drop_low)


section \<open>The loop of the build-phase step\<close>

lemma build_loop_refs:
  "fst (snd (build_loop files content refs g)) = refs @ new_build_refs files g"
proof (induction files arbitrary: content refs g)
  case Nil
  show ?case by (simp add: new_build_refs_def)
next
  case (Cons e rest)
  obtain filename file_id where e: "e = (filename, file_id)" by (cases e)
  obtain build_id g' where n: "new_id g = (build_id, g')" by (cases "new_id g")
  show ?case
    by (simp add: e n Let_def Cons.IH new_build_refs_def)
qed

lemma build_loop_depends_on_ids:
  "build_ids files g = build_ids files g' \<Longrightarrow>
   fst (build_loop files content refs g) = fst (build_loop files content refs g')"
proof (induction files arbitrary: content refs g g')
  case Nil
  show ?case by simp
next
  case (Cons e rest)
  obtain filename file_id where e: "e = (filename, file_id)" by (cases e)
  obtain b1 g1 where n1: "new_id g = (b1, g1)" by (cases "new_id g")
  obtain b2 g2 where n2: "new_id g' = (b2, g2)" by (cases "new_id g'")
  from Cons.prems have same: "b1 = b2" and rest: "build_ids rest g1 = build_ids rest g2"
    by (simp_all add: n1 n2)
  show ?case
    by (simp add: e n1 n2 Let_def same Cons.IH [OF rest])
qed

lemma add_sources_eq:
  "fst (add_sources files content g) =
     (case search_sources content of
        None \<Rightarrow> content
      | Some sm \<Rightarrow>
          insert_at (m_end sm) (nl @ join nl (new_build_refs files g))
            (fst (build_loop files content [] g)))"
proof (cases "search_sources content")
  case None
  then show ?thesis by (simp add: add_sources_def)
next
  case (Some sm)
  obtain c' refs g' where b: "build_loop files content [] g = (c', refs, g')"
    by (cases "build_loop files content [] g") auto
  have "refs = new_build_refs files g"
    using build_loop_refs [of files content "[]" g] by (simp add: b)
  then show ?thesis by (simp add: add_sources_def Some b)
qed

lemma add_sources_depends_on_ids:
  assumes "build_ids files g = build_ids files g'"
  shows "fst (add_sources files content g) = fst (add_sources files content g')"
proof -
  have "new_build_refs files g = new_build_refs files g'"
    using assms by (simp add: new_build_refs_def)
  moreover have "fst (build_loop files content [] g) = fst (build_loop files content [] g')"
    using assms by (rule build_loop_depends_on_ids)
  ultimately show ?thesis by (simp only: add_sources_eq)
qed

section \<open>The run as a whole\<close>

lemma events_print_all: "events (print_all ss w) = events w @ map Ev_print ss"
  by (induction ss arbitrary: w) (simp_all add: print_line_def emit_def)

lemma target_print_all: "target (print_all ss w) = target w"
  by (induction ss arbitrary: w) (simp_all add: print_line_def emit_def)

lemma writable_print_all: "writable (print_all ss w) = writable w"
  by (induction ss arbitrary: w) (simp_all add: print_line_def emit_def)

lemma main_read_failure: "target w = None \<Longrightarrow> main w g = (Inl Read_failed, w)"
  by (simp add: main_def)

lemma main_write_failure:
  "target w = Some content \<Longrightarrow> \<not> writable w \<Longrightarrow> main w g = (Inl Write_failed, emit Ev_read w)"
  by (simp add: main_def emit_def Let_def split: prod.split)

lemma main_success:
  assumes "target w = Some content" "writable w"
  shows "fst (main w g) = Inr ()"
    and "target (snd (main w g)) = Some (fst (patch content g))"
    and "writable (snd (main w g)) = writable w"
    and "events (snd (main w g)) =
           events w @ [Ev_read, Ev_write (fst (patch content g))] @
           map Ev_print (confirmation (snd (patch content g)))"
  using assms
  by (simp_all add: main_def emit_def Let_def events_print_all target_print_all
        writable_print_all split: prod.split)

lemma stdout_events:
  "events w' = events w @ [Ev_read, Ev_write c] @ map Ev_print ss \<Longrightarrow> stdout w' = stdout w @ ss"
  by (simp add: stdout_def comp_def concat_map_singleton)

lemma writes_events:
  "events w' = events w @ [Ev_read, Ev_write c] @ map Ev_print ss \<Longrightarrow> writes w' = writes w @ [c]"
  by (simp add: writes_def comp_def)

lemma length_files_to_add: "length (fst (files_to_add g)) = 3"
  by (simp add: files_to_add_eq)

text \<open>
  Claim C3. When none of the three anchors occurs in the document that was read (and the
  file can be written), every insertion step is skipped: the text written back is the
  input itself, the run ends normally, and the confirmation (the header and one line for
  each of the three entries) is printed all the same.
\<close>

theorem no_anchor_run_is_identity:
  assumes "target w = Some doc" and "writable w"
    and "search_file_ref doc = None" and "search_group doc = None"
    and "search_sources doc = None"
  shows "fst (main w g) = Inr () \<and>
         target (snd (main w g)) = Some doc \<and>
         writes (snd (main w g)) = writes w @ [doc] \<and>
         stdout (snd (main w g)) =
           stdout w @ ''Successfully added files to Xcode project:'' #
             map entry_message (fst (files_to_add g)) \<and>
         length (fst (files_to_add g)) = 3"
proof -
  let ?files = "fst (files_to_add g)"
  have c1: "add_file_refs ?files doc = doc"
    using assms(3) by (simp add: add_file_refs_def)
  have c2: "add_group_refs ?files doc = doc"
    using assms(4) by (simp add: add_group_refs_def)
  have c3: "fst (add_sources ?files doc (snd (files_to_add g))) = doc"
    using assms(5) by (simp add: add_sources_def)
  have p: "patch doc g = (doc, ?files)"
    by (simp add: patch_eq c1 c2 c3)
  note ok = main_success [OF assms(1,2), of g]
  have ev: "events (snd (main w g)) =
              events w @ [Ev_read, Ev_write doc] @ map Ev_print (confirmation ?files)"
    using ok(4) by (simp add: p)
  have "fst (main w g) = Inr ()" by (rule ok(1))
  moreover have "target (snd (main w g)) = Some doc" using ok(2) by (simp add: p)
  moreover have "writes (snd (main w g)) = writes w @ [doc]" using ev by (rule writes_events)
  moreover have "stdout (snd (main w g)) = stdout w @ confirmation ?files"
    using ev by (rule stdout_events)
  ultimately show ?thesis
    by (simp add: confirmation_def length_files_to_add)
qed

theorem no_anchor_run_is_identity_witness:
  "target (world_of doc_plain) = Some doc_plain \<and> writable (world_of doc_plain) \<and>
   search_file_ref doc_plain = None \<and> search_group doc_plain = None \<and>
   search_sources doc_plain = None \<and>
   fst (main (world_of doc_plain) rng_a) = Inr () \<and>
   target (snd (main (world_of doc_plain) rng_a)) = Some doc_plain \<and>
   writes (snd (main (world_of doc_plain) rng_a)) = [doc_plain] \<and>
   stdout (snd (main (world_of doc_plain) rng_a)) =
     ''Successfully added files to Xcode project:'' #
       map entry_message (fst (files_to_add rng_a))"
proof -
  have t: "target (world_of doc_plain) = Some doc_plain" by (simp add: world_of_def)
  have wr: "writable (world_of doc_plain)" by (simp add: world_of_def)
  have h1: "search_file_ref doc_plain = None" by code_simp
  have h2: "search_group doc_plain = None" by code_simp
  have h3: "search_sources doc_plain = None" by code_simp
  have w0: "writes (world_of doc_plain) = []" "stdout (world_of doc_plain) = []"
    by (simp_all add: world_of_def writes_def stdout_def)
  show ?thesis
    using no_anchor_run_is_identity [OF t wr h1 h2 h3, of rng_a] t wr h1 h2 h3
    by (simp add: w0)
qed

text \<open>
  Claim C5. The target file is written at most once, and the single write stores the
  document after all insertion steps, following the read and preceding only the printed
  lines. A run that fails (in particular when the file cannot be read) leaves the file as
  it was.
\<close>

theorem file_written_once_at_end:
  "length (writes (snd (main w g))) \<le> length (writes w) + 1 \<and>
   (target w = None \<longrightarrow> main w g = (Inl Read_failed, w)) \<and>
   (fst (main w g) \<noteq> Inr () \<longrightarrow>
      target (snd (main w g)) = target w \<and> writes (snd (main w g)) = writes w) \<and>
   (fst (main w g) = Inr () \<longrightarrow>
      (\<exists>doc. target w = Some doc \<and>
         target (snd (main w g)) = Some (fst (patch doc g)) \<and>
         events (snd (main w g)) =
           events w @ [Ev_read, Ev_write (fst (patch doc g))] @
           map Ev_print (confirmation (snd (patch doc g)))))"
proof (cases "target w")
  case None
  then show ?thesis by (simp add: main_read_failure)
next
  case (Some doc)
  show ?thesis
  proof (cases "writable w")
    case False
    have "main w g = (Inl Write_failed, emit Ev_read w)"
      using Some False by (rule main_write_failure)
    then show ?thesis by (simp add: Some emit_def writes_def)
  next
    case True
    note ok = main_success [OF Some True, of g]
    have "writes (snd (main w g)) = writes w @ [fst (patch doc g)]"
      using ok(4) by (rule writes_events)
    then show ?thesis using ok by (simp add: Some)
  qed
qed

theorem file_written_once_at_end_witness:
  "target world_missing = None \<and> main world_missing rng_a = (Inl Read_failed, world_missing) \<and>
   fst (main (world_of doc_plain) rng_a) = Inr () \<and>
   (\<exists>doc. target (world_of doc_plain) = Some doc \<and>
      target (snd (main (world_of doc_plain) rng_a)) = Some (fst (patch doc rng_a)) \<and>
      events (snd (main (world_of doc_plain) rng_a)) =
        events (world_of doc_plain) @ [Ev_read, Ev_write (fst (patch doc rng_a))] @
        map Ev_print (confirmation (snd (patch doc rng_a)))) \<and>
   fst (main ((world_of doc_plain)\<lparr>writable := False\<rparr>) rng_a) \<noteq> Inr () \<and>
   target (snd (main ((world_of doc_plain)\<lparr>writable := False\<rparr>) rng_a)) = Some doc_plain"
proof -
  have n: "target world_missing = None" by (simp add: world_missing_def)
  have s: "fst (main (world_of doc_plain) rng_a) = Inr ()"
    by (rule main_success(1)) (simp_all add: world_of_def)
  have f: "fst (main ((world_of doc_plain)\<lparr>writable := False\<rparr>) rng_a) \<noteq> Inr ()"
    by (simp add: main_write_failure [of _ doc_plain] world_of_def)
  show ?thesis
    using file_written_once_at_end [of world_missing rng_a]
      file_written_once_at_end [of "world_of doc_plain" rng_a]
      file_written_once_at_end [of "(world_of doc_plain)\<lparr>writable := False\<rparr>" rng_a]
      n s f
    by (simp add: world_of_def)
qed

text \<open>
  Claim C10. With the generated identifiers held fixed the run is deterministic: two
  streams of random draws that yield the same entry identifiers and the same build
  identifiers give the same output document and the same effects, printed lines included.
\<close>

theorem deterministic_given_identifiers:
  assumes "fst (files_to_add g) = fst (files_to_add g')"
    and "build_ids (fst (files_to_add g)) (snd (files_to_add g)) =
         build_ids (fst (files_to_add g')) (snd (files_to_add g'))"
  shows "patch doc g = patch doc g' \<and> main w g = main w g'"
proof -
  have "fst (add_sources (fst (files_to_add g)) c (snd (files_to_add g))) =
        fst (add_sources (fst (files_to_add g)) c (snd (files_to_add g')))" for c
    using assms by (intro add_sources_depends_on_ids) simp
  then have p: "patch c g = patch c g'" for c
    by (simp add: patch_eq assms(1))
  have "main w g = main w g'"
    unfolding main_def p by (rule refl)
  with p show ?thesis by simp
qed

theorem deterministic_given_identifiers_witness:
  "rng_a 0 \<noteq> rng_b 0 \<and>
   fst (files_to_add rng_a) = fst (files_to_add rng_b) \<and>
   build_ids (fst (files_to_add rng_a)) (snd (files_to_add rng_a)) =
     build_ids (fst (files_to_add rng_b)) (snd (files_to_add rng_b)) \<and>
   patch doc_plain rng_a = patch doc_plain rng_b \<and>
   main (world_of doc_plain) rng_a = main (world_of doc_plain) rng_b"
proof -
  have d: "rng_a 0 \<noteq> rng_b 0" by code_simp
  have h1: "fst (files_to_add rng_a) = fst (files_to_add rng_b)"
    by (simp add: files_to_add_eq rng_b_def low_bits_discarded)
  have h2: "build_ids (fst (files_to_add rng_a)) (snd (files_to_add rng_a)) =
            build_ids (fst (files_to_add rng_b)) (snd (files_to_add rng_b))"
    by (simp add: files_to_add_eq new_id_eq rng_b_def low_bits_discarded)
  show ?thesis
    using deterministic_given_identifiers [OF h1 h2, of doc_plain "world_of doc_plain"] d h1 h2
    by simp
qed

section \<open>What the searches return\<close>

lemma find_from_Nil_pat: "find_from [] body i = Some i"
  by (cases body) simp_all

lemma find_from_Some:
  "find_from pat body i = Some s \<Longrightarrow> \<exists>ps ss. body = ps @ pat @ ss \<and> s = i + length ps"
proof (induction body arbitrary: i)
  case Nil
  then show ?case by (simp split: if_splits)
next
  case (Cons x xs)
  show ?case
  proof (cases "prefix pat (x # xs)")
    case True
    then obtain ss where "x # xs = pat @ ss" by (auto simp: prefix_def)
    moreover from True Cons.prems have "s = i" by simp
    ultimately have "x # xs = [] @ pat @ ss \<and> s = i + length ([] :: string)" by simp
    then show ?thesis by blast
  next
    case False
    with Cons.prems have "find_from pat xs (Suc i) = Some s" by simp
    then obtain ps ss where "xs = ps @ pat @ ss" and "s = Suc i + length ps"
      using Cons.IH by blast
    then have "x # xs = (x # ps) @ pat @ ss \<and> s = i + length (x # ps)" by simp
    then show ?thesis by blast
  qed
qed

lemma find_from_None_iff: "find_from pat body i = None \<longleftrightarrow> \<not> sublist pat body"
proof (induction body arbitrary: i)
  case Nil
  show ?case by simp
next
  case (Cons x xs)
  show ?case by (simp add: sublist_Cons_right Cons.IH)
qed

lemma prefix_iff_take: "prefix pat xs \<longleftrightarrow> take (length pat) xs = pat"
  by (metis append_eq_conv_conj prefix_def take_is_prefix)

lemma prefix_long: "length pat \<le> length u \<Longrightarrow> prefix pat (u @ z) \<longleftrightarrow> prefix pat u"
  by (simp add: prefix_iff_take)

text \<open>The leftmost match depends only on the text up to its end.\<close>

lemma find_from_stable:
  "find_from pat (ps @ pat @ ss) i = Some (i + length ps) \<Longrightarrow>
   find_from pat (ps @ pat @ zs) i = Some (i + length ps)"
proof (induction ps arbitrary: i)
  case Nil
  show ?case
  proof (cases "pat @ zs")
    case Nil
    then show ?thesis by simp
  next
    case (Cons x xs)
    have "prefix pat (pat @ zs)" by simp
    then show ?thesis by (simp add: Cons)
  qed
next
  case (Cons p ps)
  have long: "length pat \<le> length (p # ps @ pat)" by simp
  have np: "\<not> prefix pat ((p # ps @ pat) @ ss)"
  proof
    assume "prefix pat ((p # ps @ pat) @ ss)"
    then have "find_from pat ((p # ps) @ pat @ ss) i = Some i" by simp
    with Cons.prems show False by simp
  qed
  then have np': "\<not> prefix pat ((p # ps @ pat) @ zs)"
    using prefix_long [OF long] by blast
  from np Cons.prems have "find_from pat (ps @ pat @ ss) (Suc i) = Some (Suc i + length ps)"
    by simp
  then have "find_from pat (ps @ pat @ zs) (Suc i) = Some (Suc i + length ps)"
    by (rule Cons.IH)
  with np' show ?case by simp
qed

lemma search_literal_None_iff: "search_literal pat body = None \<longleftrightarrow> \<not> sublist pat body"
proof (cases "find_from pat body 0")
  case None
  then show ?thesis using find_from_None_iff [of pat body 0] by (simp add: search_literal_def)
next
  case (Some s)
  then show ?thesis using find_from_None_iff [of pat body 0] by (simp add: search_literal_def)
qed

lemma search_literal_found_iff: "search_literal pat body \<noteq> None \<longleftrightarrow> sublist pat body"
  by (simp add: search_literal_None_iff)

lemma search_literal_Some:
  assumes "search_literal pat body = Some m"
  shows "\<exists>ps ss. body = ps @ pat @ ss \<and> m = (length ps, length ps + length pat)"
proof -
  from assms obtain s where f: "find_from pat body 0 = Some s" and m: "m = (s, s + length pat)"
    by (auto simp: search_literal_def split: option.splits)
  from find_from_Some [OF f] obtain ps ss where "body = ps @ pat @ ss" "s = length ps"
    by auto
  with m show ?thesis by blast
qed

lemma search_literal_stable:
  assumes "search_literal pat body = Some m"
  shows "search_literal pat (insert_at (m_end m) new body) = Some m"
proof -
  from search_literal_Some [OF assms] obtain ps ss
    where t: "body = ps @ pat @ ss" and m: "m = (length ps, length ps + length pat)" by blast
  have "find_from pat (ps @ pat @ ss) 0 = Some (0 + length ps)"
    using assms by (auto simp: search_literal_def t m split: option.splits)
  then have "find_from pat (ps @ pat @ (new @ ss)) 0 = Some (0 + length ps)"
    by (rule find_from_stable)
  moreover have "insert_at (m_end m) new body = ps @ pat @ (new @ ss)"
    by (simp add: insert_at_def m_end_def m t)
  ultimately show ?thesis by (simp add: search_literal_def m)
qed

lemma search_lazy_from_Some:
  "search_lazy_from h t body i = Some m \<Longrightarrow>
   \<exists>ps mid ss. body = ps @ h @ mid @ t @ ss \<and>
     m = (i + length ps, i + length ps + length h + length mid + length t)"
proof (induction body arbitrary: i)
  case Nil
  then have "h = [] \<and> t = [] \<and> m = (i, i)" by (simp split: if_splits)
  then have "[] = [] @ h @ [] @ t @ [] \<and>
      m = (i + length ([] :: string),
           i + length ([] :: string) + length h + length ([] :: string) + length t)"
    by simp
  then show ?case by blast
next
  case (Cons x xs)
  let ?rest = "search_lazy_from h t xs (Suc i) = Some m"
  have rest: ?case if ?rest
  proof -
    from Cons.IH [OF that] obtain ps mid ss where "xs = ps @ h @ mid @ t @ ss"
      and "m = (Suc i + length ps, Suc i + length ps + length h + length mid + length t)"
      by blast
    then have "x # xs = (x # ps) @ h @ mid @ t @ ss \<and>
        m = (i + length (x # ps), i + length (x # ps) + length h + length mid + length t)"
      by simp
    then show ?thesis by blast
  qed
  show ?case
  proof (cases "prefix h (x # xs)")
    case False
    with Cons.prems have ?rest by simp
    then show ?thesis by (rule rest)
  next
    case True
    then obtain r where r: "x # xs = h @ r" by (auto simp: prefix_def)
    then have d: "drop (length h) (x # xs) = r" by (metis append_eq_conv_conj)
    show ?thesis
    proof (cases "find_from t r 0")
      case None
      with Cons.prems True d have ?rest by simp
      then show ?thesis by (rule rest)
    next
      case (Some j)
      from find_from_Some [OF Some] obtain mid ss where "r = mid @ t @ ss" "j = length mid"
        by auto
      moreover from Cons.prems True d Some have "m = (i, i + length h + j + length t)"
        by simp
      ultimately have "x # xs = [] @ h @ mid @ t @ ss \<and>
          m = (i + length ([] :: string),
               i + length ([] :: string) + length h + length mid + length t)"
        using r by simp
      then show ?thesis by blast
    qed
  qed
qed

section \<open>Occurrences of a pattern across an insertion\<close>

text \<open>
  An occurrence that lies across the insertion point has the character before the point
  somewhere other than at its end.
\<close>

lemma sublist_split_at_char:
  assumes "sublist pat (u @ [c] @ v)" and "c \<notin> set (butlast pat)"
  shows "sublist pat (u @ [c]) \<or> sublist pat v"
proof -
  from assms(1) have "sublist pat ((u @ [c]) @ v)" by simp
  then consider "sublist pat (u @ [c])" | "sublist pat v"
    | p1 p2 where "pat = p1 @ p2" "suffix p1 (u @ [c])" "prefix p2 v"
    unfolding sublist_append by blast
  then show ?thesis
  proof cases
    case 1
    then show ?thesis ..
  next
    case 2
    then show ?thesis ..
  next
    case 3
    show ?thesis
    proof (cases "p1 = [] \<or> p2 = []")
      case True
      then show ?thesis
      proof
        assume "p1 = []"
        with 3 have "prefix pat v" by simp
        then have "sublist pat v" by (rule prefix_imp_sublist)
        then show ?thesis ..
      next
        assume "p2 = []"
        with 3 have "suffix pat (u @ [c])" by simp
        then have "sublist pat (u @ [c])" by (rule suffix_imp_sublist)
        then show ?thesis ..
      qed
    next
      case False
      then have ne: "p1 \<noteq> []" "p2 \<noteq> []" by simp_all
      from 3(2) obtain q where "u @ [c] = q @ p1" by (auto simp: suffix_def)
      with ne(1) have "last p1 = c" by (metis last_appendR last_snoc)
      with ne(1) have "c \<in> set p1" using last_in_set by blast
      moreover have "butlast pat = p1 @ butlast p2"
        using 3(1) ne(2) by (simp add: butlast_append)
      ultimately have "c \<in> set (butlast pat)" by simp
      with assms(2) show ?thesis by contradiction
    qed
  qed
qed

lemma sublist_kept_by_insert:
  assumes "sublist pat (u @ [c] @ v)" and "c \<notin> set (butlast pat)"
  shows "sublist pat (u @ [c] @ new @ v)"
proof -
  from sublist_split_at_char [OF assms] show ?thesis
  proof
    assume "sublist pat (u @ [c])"
    then have "sublist pat ((u @ [c]) @ (new @ v))" by (simp only: sublist_append) simp
    then show ?thesis by simp
  next
    assume "sublist pat v"
    then have "sublist pat ((u @ [c] @ new) @ v)" by (simp only: sublist_append) simp
    then show ?thesis by simp
  qed
qed

section \<open>The steps at their insertion points\<close>

lemma m_end_le_literal:
  "search_literal pat body = Some m \<Longrightarrow> m_end m \<le> length body"
  by (auto simp: m_end_def dest!: search_literal_Some)

lemma insert_at_twice:
  "pos \<le> length content \<Longrightarrow>
   insert_at pos x (insert_at pos y content) = insert_at pos (x @ y) content"
  by (simp add: insert_at_def)

lemma add_file_refs_found:
  assumes "search_file_ref content = Some m"
  shows "\<exists>u v. content = u @ [CHR '';''] @ v \<and> m_end m = length u + 1 \<and>
           add_file_refs files content =
             u @ [CHR '';''] @ (nl @ join nl (new_file_refs files)) @ v"
proof -
  from assms obtain ps mid ss
    where c: "content = ps @ file_ref_head @ mid @ file_ref_tail @ ss"
      and m: "m = (length ps, length ps + length file_ref_head + length mid + length file_ref_tail)"
    unfolding search_file_ref_def by (auto dest!: search_lazy_from_Some)
  obtain t where t: "file_ref_tail = t @ [CHR '';'']"
    by (simp add: file_ref_tail_def)
  let ?u = "ps @ file_ref_head @ mid @ t"
  have "content = ?u @ [CHR '';''] @ ss" by (simp add: c t)
  moreover have e: "m_end m = length ?u + 1" by (simp add: m m_end_def t)
  moreover have "add_file_refs files content =
      ?u @ [CHR '';''] @ (nl @ join nl (new_file_refs files)) @ ss"
    using assms by (simp add: add_file_refs_def insert_at_def e) (simp add: c t)
  ultimately show ?thesis by blast
qed

lemma add_group_refs_found:
  assumes "search_group content = Some m"
  shows "\<exists>u v. content = u @ [CHR '',''] @ v \<and> m_end m = length u + 1 \<and>
           add_group_refs files content =
             u @ [CHR '',''] @ (nl @ join nl (new_group_refs files)) @ v"
proof -
  from assms obtain ps ss
    where c: "content = ps @ group_anchor @ ss"
      and m: "m = (length ps, length ps + length group_anchor)"
    unfolding search_group_def by (auto dest!: search_literal_Some)
  obtain t where t: "group_anchor = t @ [CHR '','']"
    by (simp add: group_anchor_def)
  let ?u = "ps @ t"
  have "content = ?u @ [CHR '',''] @ ss" by (simp add: c t)
  moreover have e: "m_end m = length ?u + 1" by (simp add: m m_end_def t)
  moreover have "add_group_refs files content =
      ?u @ [CHR '',''] @ (nl @ join nl (new_group_refs files)) @ ss"
    using assms by (simp add: add_group_refs_def insert_at_def e) (simp add: c t)
  ultimately show ?thesis by blast
qed

lemma kept_by_add_file_refs:
  assumes "sublist pat content" and "CHR '';'' \<notin> set (butlast pat)"
  shows "sublist pat (add_file_refs files content)"
proof (cases "search_file_ref content")
  case None
  with assms(1) show ?thesis by (simp add: add_file_refs_def)
next
  case (Some m)
  from add_file_refs_found [OF Some, of files] obtain u v
    where c: "content = u @ [CHR '';''] @ v"
      and a: "add_file_refs files content = u @ [CHR '';''] @ (nl @ join nl (new_file_refs files)) @ v"
    by blast
  from assms(1) have "sublist pat (u @ [CHR '';''] @ v)" by (simp add: c)
  then show ?thesis unfolding a using assms(2) by (rule sublist_kept_by_insert)
qed

lemma kept_by_add_group_refs:
  assumes "sublist pat content" and "CHR '','' \<notin> set (butlast pat)"
  shows "sublist pat (add_group_refs files content)"
proof (cases "search_group content")
  case None
  with assms(1) show ?thesis by (simp add: add_group_refs_def)
next
  case (Some m)
  from add_group_refs_found [OF Some, of files] obtain u v
    where c: "content = u @ [CHR '',''] @ v"
      and a: "add_group_refs files content = u @ [CHR '',''] @ (nl @ join nl (new_group_refs files)) @ v"
    by blast
  from assms(1) have "sublist pat (u @ [CHR '',''] @ v)" by (simp add: c)
  then show ?thesis unfolding a using assms(2) by (rule sublist_kept_by_insert)
qed

lemma anchors_without_semicolon:
  "CHR '';'' \<notin> set (butlast group_anchor)"
  "CHR '';'' \<notin> set (butlast sources_anchor)"
  "CHR '';'' \<notin> set (butlast build_file_header)"
  by (simp_all add: group_anchor_def sources_anchor_def build_file_header_def)

lemma anchors_without_inner_comma:
  "CHR '','' \<notin> set (butlast sources_anchor)"
  "CHR '','' \<notin> set (butlast build_file_header)"
  by (simp_all add: sources_anchor_def build_file_header_def)

lemma group_found_after_file_refs:
  "search_group content \<noteq> None \<Longrightarrow> search_group (add_file_refs files content) \<noteq> None"
  unfolding search_group_def search_literal_found_iff
  by (rule kept_by_add_file_refs) (simp_all add: anchors_without_semicolon)

lemma sources_found_after_steps:
  "search_sources content \<noteq> None \<Longrightarrow>
   search_sources (add_group_refs files (add_file_refs files content)) \<noteq> None"
  unfolding search_sources_def search_literal_found_iff
  by (intro kept_by_add_group_refs kept_by_add_file_refs)
    (simp_all add: anchors_without_semicolon anchors_without_inner_comma)

lemma header_found_after_steps:
  "search_build_file content \<noteq> None \<Longrightarrow>
   search_build_file (add_group_refs files (add_file_refs files content)) \<noteq> None"
  unfolding search_build_file_def search_literal_found_iff
  by (intro kept_by_add_group_refs kept_by_add_file_refs)
    (simp_all add: anchors_without_semicolon anchors_without_inner_comma)

section \<open>The loop with and without the section header\<close>

lemma build_file_entries_Cons:
  "build_file_entries ((filename, file_id) # rest) g =
     build_file_entry (fst (new_id g)) filename file_id # build_file_entries rest (snd (new_id g))"
  by (simp add: build_file_entries_def split: prod.split)

lemma build_loop_without_header:
  "search_build_file content = None \<Longrightarrow> fst (build_loop files content refs g) = content"
proof (induction files arbitrary: refs g)
  case Nil
  show ?case by simp
next
  case (Cons e rest)
  obtain filename file_id where e: "e = (filename, file_id)" by (cases e)
  obtain build_id g' where n: "new_id g = (build_id, g')" by (cases "new_id g")
  show ?case using Cons.prems by (simp add: e n Cons.IH)
qed

lemma build_loop_with_header:
  assumes "search_build_file content = Some bm"
  shows "fst (build_loop files content refs g) =
           insert_at (m_end bm)
             (concat (map (\<lambda>entry. nl @ entry) (rev (build_file_entries files g)))) content"
  using assms
proof (induction files arbitrary: content refs g)
  case Nil
  show ?case by (simp add: build_file_entries_def insert_at_def)
next
  case (Cons e rest)
  obtain filename file_id where e: "e = (filename, file_id)" by (cases e)
  obtain build_id g' where n: "new_id g = (build_id, g')" by (cases "new_id g")
  let ?entry = "build_file_entry build_id filename file_id"
  let ?c = "insert_at (m_end bm) (nl @ ?entry) content"
  have le: "m_end bm \<le> length content"
    using Cons.prems unfolding search_build_file_def by (rule m_end_le_literal)
  have again: "search_build_file ?c = Some bm"
    using Cons.prems unfolding search_build_file_def by (rule search_literal_stable)
  have "fst (build_loop (e # rest) content refs g) =
          fst (build_loop rest ?c (refs @ [sources_line build_id filename]) g')"
    using Cons.prems by (simp add: e n)
  also have "\<dots> = insert_at (m_end bm)
      (concat (map (\<lambda>entry. nl @ entry) (rev (build_file_entries rest g')))) ?c"
    using again by (rule Cons.IH)
  also have "\<dots> = insert_at (m_end bm)
      (concat (map (\<lambda>entry. nl @ entry) (rev (build_file_entries rest g'))) @ nl @ ?entry) content"
    using le by (rule insert_at_twice)
  also have "concat (map (\<lambda>entry. nl @ entry) (rev (build_file_entries rest g'))) @ nl @ ?entry =
      concat (map (\<lambda>entry. nl @ entry) (rev (build_file_entries (e # rest) g)))"
    by (simp add: e build_file_entries_Cons n)
  finally show ?case .
qed

section \<open>Insertions that cannot create a pattern\<close>

lemma sublist_not_created_inner:
  assumes "sublist pat (u @ new @ v)" and "new \<noteq> []"
    and "hd new \<notin> set (tl pat)" and "last new \<notin> set (butlast pat)"
    and "\<not> sublist pat new"
  shows "sublist pat u \<or> sublist pat v"
proof -
  have right: "sublist pat v" if "sublist pat (new @ v)"
  proof -
    from that consider "sublist pat new" | "sublist pat v"
      | p1 p2 where "pat = p1 @ p2" "suffix p1 new" "prefix p2 v"
      unfolding sublist_append by blast
    then show ?thesis
    proof cases
      case 1
      with assms(5) show ?thesis by contradiction
    next
      case 2
      then show ?thesis .
    next
      case 3
      have "p2 \<noteq> []"
      proof
        assume "p2 = []"
        with 3 have "suffix pat new" by simp
        then have "sublist pat new" by (rule suffix_imp_sublist)
        with assms(5) show False by contradiction
      qed
      have "p1 = []"
      proof (rule ccontr)
        assume ne: "p1 \<noteq> []"
        from 3(2) obtain q where "new = q @ p1" by (auto simp: suffix_def)
        with ne have "last new = last p1" by simp
        with ne have "last new \<in> set p1" using last_in_set by metis
        moreover have "butlast pat = p1 @ butlast p2"
          using 3(1) \<open>p2 \<noteq> []\<close> by (simp add: butlast_append)
        ultimately show False using assms(4) by simp
      qed
      with 3 have "prefix pat v" by simp
      then show ?thesis by (rule prefix_imp_sublist)
    qed
  qed
  from assms(1) consider "sublist pat u" | "sublist pat (new @ v)"
    | p1 p2 where "pat = p1 @ p2" "suffix p1 u" "prefix p2 (new @ v)"
    unfolding sublist_append by blast
  then show ?thesis
  proof cases
    case 1
    then show ?thesis ..
  next
    case 2
    then have "sublist pat v" by (rule right)
    then show ?thesis ..
  next
    case 3
    show ?thesis
    proof (cases "p1 = []")
      case True
      with 3 have "prefix pat (new @ v)" by simp
      then have "sublist pat (new @ v)" by (rule prefix_imp_sublist)
      then have "sublist pat v" by (rule right)
      then show ?thesis ..
    next
      case False
      have "p2 = []"
      proof (rule ccontr)
        assume ne: "p2 \<noteq> []"
        from 3(3) obtain q where q: "new @ v = p2 @ q" by (auto simp: prefix_def)
        from assms(2) have "hd (new @ v) = hd new" by simp
        with q ne have "hd new = hd p2" by simp
        with ne have "hd new \<in> set p2" using hd_in_set by metis
        moreover have "tl pat = tl p1 @ p2" using 3(1) False by simp
        ultimately show False using assms(3) by simp
      qed
      with 3 have "suffix pat u" by simp
      then have "sublist pat u" by (rule suffix_imp_sublist)
      then show ?thesis ..
    qed
  qed
qed

lemma sublist_not_created_by_insert_inner:
  assumes "sublist pat (u @ new @ v)" and "new \<noteq> []"
    and "hd new \<notin> set (tl pat)" and "last new \<notin> set (butlast pat)"
    and "\<not> sublist pat new"
  shows "sublist pat (u @ v)"
proof -
  from sublist_not_created_inner [OF assms] show ?thesis
  proof
    assume "sublist pat u"
    then show ?thesis by (simp add: sublist_append)
  next
    assume "sublist pat v"
    then show ?thesis by (simp add: sublist_append)
  qed
qed

lemma sublist_not_created:
  assumes "sublist pat (u @ new @ v)" and "new \<noteq> []"
    and "hd new \<notin> set pat" and "last new \<notin> set pat" and "\<not> sublist pat new"
  shows "sublist pat u \<or> sublist pat v"
proof (rule sublist_not_created_inner [OF assms(1,2) _ _ assms(5)])
  show "hd new \<notin> set (tl pat)" using assms(3) by (metis list.set_sel(2) tl_Nil)
  show "last new \<notin> set (butlast pat)" using assms(4) by (metis in_set_butlastD)
qed

lemma sublist_not_created_by_insert:
  assumes "sublist pat (u @ new @ v)" and "new \<noteq> []"
    and "hd new \<notin> set pat" and "last new \<notin> set pat" and "\<not> sublist pat new"
  shows "sublist pat (u @ v)"
proof (rule sublist_not_created_by_insert_inner [OF assms(1,2) _ _ assms(5)])
  show "hd new \<notin> set (tl pat)" using assms(3) by (metis list.set_sel(2) tl_Nil)
  show "last new \<notin> set (butlast pat)" using assms(4) by (metis in_set_butlastD)
qed

lemma sublist_needs_chars: "sublist pat xs \<Longrightarrow> c \<in> set pat \<Longrightarrow> c \<in> set xs"
  by (auto simp: sublist_def)

text \<open>A pair of characters that are both foreign to \<open>mid\<close> cannot lie across \<open>mid\<close>.\<close>

lemma pair_not_across:
  assumes "sublist [a, b] (xs @ mid @ ys)" and "mid \<noteq> []"
    and "a \<notin> set mid" and "b \<notin> set mid"
  shows "sublist [a, b] xs \<or> sublist [a, b] ys"
proof (rule sublist_not_created [OF assms(1,2)])
  from assms(2) have "hd mid \<in> set mid" "last mid \<in> set mid" by simp_all
  with assms(3,4) show "hd mid \<notin> set [a, b]" "last mid \<notin> set [a, b]" by auto
  show "\<not> sublist [a, b] mid"
    using assms(3) sublist_needs_chars [of "[a, b]" mid a] by auto
qed

lemma pair_free_append:
  assumes "\<not> sublist [a, b] xs" and "\<not> sublist [a, b] ys" and "xs \<noteq> []" and "last xs \<noteq> a"
  shows "\<not> sublist [a, b] (xs @ ys)"
proof
  assume "sublist [a, b] (xs @ ys)"
  then consider "sublist [a, b] xs" | "sublist [a, b] ys"
    | p1 p2 where "[a, b] = p1 @ p2" "suffix p1 xs" "prefix p2 ys"
    unfolding sublist_append by blast
  then show False
  proof cases
    case 1
    with assms(1) show False by contradiction
  next
    case 2
    with assms(2) show False by contradiction
  next
    case 3
    from 3(1) consider "p1 = []" | "p1 = [a]" | "p2 = []"
      by (cases p1; cases "tl p1") auto
    then show False
    proof cases
      case 1
      with 3 have "prefix [a, b] ys" by simp
      then have "sublist [a, b] ys" by (rule prefix_imp_sublist)
      with assms(2) show False by contradiction
    next
      case 2
      with 3(2) obtain q where "xs = q @ [a]" by (auto simp: suffix_def)
      then have "last xs = a" by simp
      with assms(4) show False by contradiction
    next
      case 3
      with \<open>[a, b] = p1 @ p2\<close> \<open>suffix p1 xs\<close> have "suffix [a, b] xs" by simp
      then have "sublist [a, b] xs" by (rule suffix_imp_sublist)
      with assms(1) show False by contradiction
    qed
  qed
qed

section \<open>The characters of the generated lines\<close>

lemma not_in_id: "set i \<subseteq> upper_hex \<Longrightarrow> c \<notin> upper_hex \<Longrightarrow> c \<notin> set i"
  by auto

lemma upper_hex_excludes:
  "CHR 0x0A \<notin> upper_hex" "CHR '','' \<notin> upper_hex" "CHR '';'' \<notin> upper_hex"
  "CHR ''g'' \<notin> upper_hex" "CHR ''i'' \<notin> upper_hex" "CHR ''X'' \<notin> upper_hex"
  by (simp_all add: upper_hex_def)

lemma file_ref_line_split:
  \<open>file_ref_line filename file_id =
     (tab @ tab) @ file_id @
     ('' /* '' @ filename @
      '' */ = {isa = PBXFileReference; lastKnownFileType = sourcecode.swift; path = '' @
      filename @ ''; sourceTree = "<group>"; };'')\<close>
  by (simp add: file_ref_line_def)

lemma sublist_literal_Cons:
  "sublist (p # ps) (y # ys) \<longleftrightarrow> prefix (p # ps) (y # ys) \<or> sublist (p # ps) ys"
  by (rule sublist_Cons_right)

lemma file_ref_line_no_gi:
  assumes "set file_id \<subseteq> upper_hex" and "file_id \<noteq> []"
    and "filename \<in> {''BlockedUsersManager.swift'', ''BlockedUsersView.swift'', ''TermsOfService.swift''}"
  shows "\<not> sublist ''gi'' (file_ref_line filename file_id)"
proof
  assume "sublist ''gi'' (file_ref_line filename file_id)"
  then have "sublist [CHR ''g'', CHR ''i''] ((tab @ tab) @ file_id @
     ('' /* '' @ filename @
      '' */ = {isa = PBXFileReference; lastKnownFileType = sourcecode.swift; path = '' @
      filename @ ''; sourceTree = \"<group>\"; };''))"
    by (simp only: file_ref_line_split)
  then have "sublist ''gi'' (tab @ tab) \<or> sublist ''gi'' ('' /* '' @ filename @
      '' */ = {isa = PBXFileReference; lastKnownFileType = sourcecode.swift; path = '' @
      filename @ ''; sourceTree = \"<group>\"; };'')"
    by (rule pair_not_across) (simp_all add: assms(1,2) not_in_id upper_hex_excludes)
  with assms(3) show False
    by (auto simp: tab_def sublist_literal_Cons)
qed


lemma ident_of_chars: "c \<notin> upper_hex \<Longrightarrow> c \<notin> set (ident_of u)"
  using set_ident_of [of u] by auto

lemma ident_of_not_Nil: "ident_of u \<noteq> []"
  using length_ident_of [of u] by auto

lemma new_file_refs_run:
  "new_file_refs (fst (files_to_add g)) =
     [file_ref_line ''BlockedUsersManager.swift'' (ident_of (uuid4_int (g 0))),
      file_ref_line ''BlockedUsersView.swift'' (ident_of (uuid4_int (g (Suc 0)))),
      file_ref_line ''TermsOfService.swift'' (ident_of (uuid4_int (g (Suc (Suc 0)))))]"
  by (simp add: files_to_add_eq new_file_refs_def)

lemma file_ref_line_ends: "file_ref_line filename file_id \<noteq> [] \<and> last (file_ref_line filename file_id) = CHR '';''"
  by (simp add: file_ref_line_def)

lemma file_ref_line_chars:
  assumes "c \<notin> set filename" and "c \<notin> set file_id"
    and \<open>c \<notin> set (tab @ '' /* */ = {isa = PBXFileReference; lastKnownFileType = sourcecode.swift; path = ; sourceTree = "<group>"; };'')\<close>
  shows "c \<notin> set (file_ref_line filename file_id)"
  using assms by (simp add: file_ref_line_def tab_def)

lemma file_refs_block_ends:
  "nl @ join nl (new_file_refs (fst (files_to_add g))) \<noteq> [] \<and>
   hd (nl @ join nl (new_file_refs (fst (files_to_add g)))) = CHR 0x0A \<and>
   last (nl @ join nl (new_file_refs (fst (files_to_add g)))) = CHR '';''"
  by (simp add: new_file_refs_run nl_def file_ref_line_ends)

lemma file_refs_block_no_comma:
  "CHR '','' \<notin> set (nl @ join nl (new_file_refs (fst (files_to_add g))))"
  by (simp add: new_file_refs_run nl_def file_ref_line_chars ident_of_chars upper_hex_excludes tab_def)

lemma file_refs_block_line_breaks:
  "count_list (nl @ join nl (new_file_refs (fst (files_to_add g)))) (CHR 0x0A) = 3"
proof -
  have "count_list (file_ref_line filename (ident_of u)) (CHR 0x0A) = 0"
    if "CHR 0x0A \<notin> set filename" for filename u
    using that by (intro count_notin file_ref_line_chars) (simp_all add: ident_of_chars upper_hex_excludes tab_def)
  then show ?thesis
    by (simp add: new_file_refs_run nl_def)
qed

lemma file_refs_block_no_gi:
  "\<not> sublist ''gi'' (nl @ join nl (new_file_refs (fst (files_to_add g))))"
  unfolding new_file_refs_run join.simps
  by (intro pair_free_append file_ref_line_no_gi)
    (simp_all add: nl_def file_ref_line_ends set_ident_of ident_of_not_Nil sublist_literal_Cons)


lemma new_group_refs_run:
  "new_group_refs (fst (files_to_add g)) =
     [group_line ''BlockedUsersManager.swift'' (ident_of (uuid4_int (g 0))),
      group_line ''BlockedUsersView.swift'' (ident_of (uuid4_int (g (Suc 0)))),
      group_line ''TermsOfService.swift'' (ident_of (uuid4_int (g (Suc (Suc 0)))))]"
  by (simp add: files_to_add_eq new_group_refs_def)

lemma group_line_ends:
  "group_line filename file_id \<noteq> [] \<and> last (group_line filename file_id) = CHR '',''"
  by (simp add: group_line_def)

lemma group_line_chars:
  assumes "c \<notin> set filename" and "c \<notin> set file_id" and "c \<notin> set (tab @ '' /* */,'')"
  shows "c \<notin> set (group_line filename file_id)"
  using assms by (simp add: group_line_def tab_def)

lemma group_block_ends:
  "nl @ join nl (new_group_refs (fst (files_to_add g))) \<noteq> [] \<and>
   hd (nl @ join nl (new_group_refs (fst (files_to_add g)))) = CHR 0x0A \<and>
   last (nl @ join nl (new_group_refs (fst (files_to_add g)))) = CHR '',''"
  by (simp add: new_group_refs_run nl_def group_line_ends)

lemma group_block_no_X:
  "CHR ''X'' \<notin> set (nl @ join nl (new_group_refs (fst (files_to_add g))))"
  by (simp add: new_group_refs_run nl_def group_line_chars ident_of_chars upper_hex_excludes tab_def)

lemma group_block_line_breaks:
  "count_list (nl @ join nl (new_group_refs (fst (files_to_add g)))) (CHR 0x0A) = 3"
proof -
  have "count_list (group_line filename (ident_of u)) (CHR 0x0A) = 0"
    if "CHR 0x0A \<notin> set filename" for filename u
    using that by (intro count_notin group_line_chars) (simp_all add: ident_of_chars upper_hex_excludes tab_def)
  then show ?thesis
    by (simp add: new_group_refs_run nl_def)
qed

lemma build_ids_run:
  "build_ids (fst (files_to_add g)) (snd (files_to_add g)) =
     [ident_of (uuid4_int (g 3)), ident_of (uuid4_int (g 4)), ident_of (uuid4_int (g 5))]"
  by (simp add: files_to_add_eq new_id_eq numeral_3_eq_3 numeral_Bit0 numeral_Bit1)

lemma build_file_entries_run:
  "build_file_entries (fst (files_to_add g)) (snd (files_to_add g)) =
     [build_file_entry (ident_of (uuid4_int (g 3))) ''BlockedUsersManager.swift'' (ident_of (uuid4_int (g 0))),
      build_file_entry (ident_of (uuid4_int (g 4))) ''BlockedUsersView.swift'' (ident_of (uuid4_int (g (Suc 0)))),
      build_file_entry (ident_of (uuid4_int (g 5))) ''TermsOfService.swift'' (ident_of (uuid4_int (g (Suc (Suc 0)))))]"
  unfolding build_file_entries_def build_ids_run by (simp add: files_to_add_eq)

lemma new_build_refs_run:
  "new_build_refs (fst (files_to_add g)) (snd (files_to_add g)) =
     [sources_line (ident_of (uuid4_int (g 3))) ''BlockedUsersManager.swift'',
      sources_line (ident_of (uuid4_int (g 4))) ''BlockedUsersView.swift'',
      sources_line (ident_of (uuid4_int (g 5))) ''TermsOfService.swift'']"
  unfolding new_build_refs_def build_ids_run by (simp add: files_to_add_eq)

lemma build_file_entry_ends:
  "build_file_entry build_id filename file_id \<noteq> [] \<and>
   last (build_file_entry build_id filename file_id) = CHR '';''"
  by (simp add: build_file_entry_def)

lemma build_file_entry_chars:
  assumes "c \<notin> set filename" and "c \<notin> set file_id" and "c \<notin> set build_id"
    and "c \<notin> set (tab @ '' /* in Sources */ = {isa = PBXBuildFile; fileRef = ; };'')"
  shows "c \<notin> set (build_file_entry build_id filename file_id)"
  using assms by (simp add: build_file_entry_def tab_def)

lemma sources_line_chars:
  assumes "c \<notin> set filename" and "c \<notin> set build_id"
    and "c \<notin> set (tab @ '' /* in Sources */,'')"
  shows "c \<notin> set (sources_line build_id filename)"
  using assms by (simp add: sources_line_def tab_def)

lemma build_block_ends:
  "concat (map (\<lambda>entry. nl @ entry) (rev (build_file_entries (fst (files_to_add g)) (snd (files_to_add g))))) \<noteq> [] \<and>
   hd (concat (map (\<lambda>entry. nl @ entry) (rev (build_file_entries (fst (files_to_add g)) (snd (files_to_add g)))))) = CHR 0x0A \<and>
   last (concat (map (\<lambda>entry. nl @ entry) (rev (build_file_entries (fst (files_to_add g)) (snd (files_to_add g)))))) = CHR '';''"
  by (simp add: build_file_entries_run nl_def build_file_entry_ends)

lemma build_block_no_comma:
  "CHR '','' \<notin> set (concat (map (\<lambda>entry. nl @ entry)
      (rev (build_file_entries (fst (files_to_add g)) (snd (files_to_add g))))))"
  by (simp add: build_file_entries_run nl_def build_file_entry_chars ident_of_chars
      upper_hex_excludes tab_def)

lemma build_block_line_breaks:
  "count_list (concat (map (\<lambda>entry. nl @ entry)
      (rev (build_file_entries (fst (files_to_add g)) (snd (files_to_add g)))))) (CHR 0x0A) = 3"
proof -
  have "count_list (build_file_entry (ident_of b) filename (ident_of u)) (CHR 0x0A) = 0"
    if "CHR 0x0A \<notin> set filename" for filename u b
    using that by (intro count_notin build_file_entry_chars)
      (simp_all add: ident_of_chars upper_hex_excludes tab_def)
  then show ?thesis
    by (simp add: build_file_entries_run nl_def)
qed

lemma sources_block_line_breaks:
  "count_list (nl @ join nl (new_build_refs (fst (files_to_add g)) (snd (files_to_add g))))
     (CHR 0x0A) = 3"
proof -
  have "count_list (sources_line (ident_of b) filename) (CHR 0x0A) = 0"
    if "CHR 0x0A \<notin> set filename" for filename b
    using that by (intro count_notin sources_line_chars)
      (simp_all add: ident_of_chars upper_hex_excludes tab_def)
  then show ?thesis
    by (simp add: new_build_refs_run nl_def)
qed

section \<open>Anchors that the first two steps cannot create\<close>

lemma not_created_by_add_file_refs:
  assumes "sublist pat (add_file_refs (fst (files_to_add g)) content)"
    and "CHR 0x0A \<notin> set pat" and "CHR '';'' \<notin> set pat"
    and "\<not> sublist pat (nl @ join nl (new_file_refs (fst (files_to_add g))))"
  shows "sublist pat content"
proof (cases "search_file_ref content")
  case None
  with assms(1) show ?thesis by (simp add: add_file_refs_def)
next
  case (Some m)
  let ?block = "nl @ join nl (new_file_refs (fst (files_to_add g)))"
  from add_file_refs_found [OF Some, of "fst (files_to_add g)"] obtain u v
    where c: "content = u @ [CHR '';''] @ v"
      and a: "add_file_refs (fst (files_to_add g)) content = u @ [CHR '';''] @ ?block @ v"
    by blast
  from assms(1) have s: "sublist pat ((u @ [CHR '';'']) @ ?block @ v)" by (simp add: a)
  note ends = file_refs_block_ends [of g]
  have "?block \<noteq> []" using ends by blast
  moreover have "hd ?block \<notin> set pat" using ends assms(2) by metis
  moreover have "last ?block \<notin> set pat" using ends assms(3) by metis
  ultimately have "sublist pat ((u @ [CHR '';'']) @ v)"
    using assms(4) by (rule sublist_not_created_by_insert [OF s])
  then show ?thesis by (simp add: c)
qed

lemma not_created_by_add_group_refs:
  assumes "sublist pat (add_group_refs (fst (files_to_add g)) content)"
    and "CHR 0x0A \<notin> set pat" and "CHR '','' \<notin> set pat"
    and "\<not> sublist pat (nl @ join nl (new_group_refs (fst (files_to_add g))))"
  shows "sublist pat content"
proof (cases "search_group content")
  case None
  with assms(1) show ?thesis by (simp add: add_group_refs_def)
next
  case (Some m)
  let ?block = "nl @ join nl (new_group_refs (fst (files_to_add g)))"
  from add_group_refs_found [OF Some, of "fst (files_to_add g)"] obtain u v
    where c: "content = u @ [CHR '',''] @ v"
      and a: "add_group_refs (fst (files_to_add g)) content = u @ [CHR '',''] @ ?block @ v"
    by blast
  from assms(1) have s: "sublist pat ((u @ [CHR '','']) @ ?block @ v)" by (simp add: a)
  note ends = group_block_ends [of g]
  have "?block \<noteq> []" using ends by blast
  moreover have "hd ?block \<notin> set pat" using ends assms(2) by metis
  moreover have "last ?block \<notin> set pat" using ends assms(3) by metis
  ultimately have "sublist pat ((u @ [CHR '','']) @ v)"
    using assms(4) by (rule sublist_not_created_by_insert [OF s])
  then show ?thesis by (simp add: c)
qed

lemma group_absent_after_file_refs:
  assumes "search_group content = None"
  shows "search_group (add_file_refs (fst (files_to_add g)) content) = None"
proof -
  have "\<not> sublist group_anchor (nl @ join nl (new_file_refs (fst (files_to_add g))))"
  proof
    assume "sublist group_anchor (nl @ join nl (new_file_refs (fst (files_to_add g))))"
    then have "CHR '','' \<in> set (nl @ join nl (new_file_refs (fst (files_to_add g))))"
      by (rule sublist_needs_chars) (simp add: group_anchor_def)
    with file_refs_block_no_comma show False by blast
  qed
  moreover have "CHR 0x0A \<notin> set group_anchor" and "CHR '';'' \<notin> set group_anchor"
    by (simp_all add: group_anchor_def)
  ultimately have "sublist group_anchor content"
    if "sublist group_anchor (add_file_refs (fst (files_to_add g)) content)"
    using that by (metis not_created_by_add_file_refs)
  with assms show ?thesis
    unfolding search_group_def search_literal_None_iff by blast
qed

lemma header_absent_after_steps:
  assumes "search_build_file content = None"
  shows "search_build_file
           (add_group_refs (fst (files_to_add g)) (add_file_refs (fst (files_to_add g)) content)) = None"
proof -
  let ?files = "fst (files_to_add g)"
  have gi: "sublist ''gi'' build_file_header"
    by (simp add: build_file_header_def sublist_literal_Cons)
  have r: "\<not> sublist build_file_header (nl @ join nl (new_file_refs ?files))"
  proof
    assume "sublist build_file_header (nl @ join nl (new_file_refs ?files))"
    with gi have "sublist ''gi'' (nl @ join nl (new_file_refs ?files))"
      by (rule sublist_order.order.trans)
    with file_refs_block_no_gi show False by blast
  qed
  have q: "\<not> sublist build_file_header (nl @ join nl (new_group_refs ?files))"
  proof
    assume "sublist build_file_header (nl @ join nl (new_group_refs ?files))"
    then have "CHR ''X'' \<in> set (nl @ join nl (new_group_refs ?files))"
      by (rule sublist_needs_chars) (simp add: build_file_header_def)
    with group_block_no_X show False by blast
  qed
  have nc: "CHR 0x0A \<notin> set build_file_header" "CHR '';'' \<notin> set build_file_header"
    "CHR '','' \<notin> set build_file_header"
    by (simp_all add: build_file_header_def)
  have "sublist build_file_header content"
    if "sublist build_file_header (add_group_refs ?files (add_file_refs ?files content))"
  proof -
    from that nc(1) nc(3) q have "sublist build_file_header (add_file_refs ?files content)"
      by (rule not_created_by_add_group_refs)
    from this nc(1) nc(2) r show ?thesis
      by (rule not_created_by_add_file_refs)
  qed
  with assms show ?thesis
    unfolding search_build_file_def search_literal_None_iff by blast
qed

section \<open>The run in terms of its intermediate documents\<close>

lemma patch_via_states:
  "fst (patch doc g) =
     (case search_sources (before_sources doc g) of
        None \<Rightarrow> before_sources doc g
      | Some sm \<Rightarrow> insert_at (m_end sm) (sources_block g) (after_loop doc g))"
  unfolding before_sources_def after_loop_def sources_block_def entries_def
  by (simp add: patch_eq add_sources_eq)

lemma after_loop_cases:
  "after_loop doc g =
     (case search_build_file (before_sources doc g) of
        None \<Rightarrow> before_sources doc g
      | Some bm \<Rightarrow> insert_at (m_end bm) (build_file_block g) (before_sources doc g))"
  by (simp add: after_loop_def build_file_block_def build_loop_without_header
      build_loop_with_header split: option.split)

lemma line_breaks_insert_at:
  "line_breaks (insert_at pos new content) = line_breaks content + line_breaks new"
proof -
  have "count_list (take pos content @ drop pos content) (CHR 0x0A) = count_list content (CHR 0x0A)"
    by (simp only: append_take_drop_id)
  then have "count_list (take pos content) (CHR 0x0A) + count_list (drop pos content) (CHR 0x0A) =
      count_list content (CHR 0x0A)"
    by (simp only: count_list_append)
  then show ?thesis by (simp add: insert_at_def line_breaks_def)
qed

lemma line_breaks_file_refs_block: "line_breaks (file_refs_block g) = 3"
  unfolding line_breaks_def file_refs_block_def entries_def by (rule file_refs_block_line_breaks)

lemma line_breaks_group_block: "line_breaks (group_block g) = 3"
  unfolding line_breaks_def group_block_def entries_def by (rule group_block_line_breaks)

lemma line_breaks_build_file_block: "line_breaks (build_file_block g) = 3"
  unfolding line_breaks_def build_file_block_def entries_def by (rule build_block_line_breaks)

lemma line_breaks_sources_block: "line_breaks (sources_block g) = 3"
  unfolding line_breaks_def sources_block_def entries_def by (rule sources_block_line_breaks)

section \<open>The leftmost match after an insertion in front of it\<close>

lemma longer_than_butlast: "pat \<noteq> [] \<Longrightarrow> \<not> sublist pat (butlast pat)"
  using sublist_length_le [of pat "butlast pat"] by (cases pat rule: rev_cases) auto

lemma find_from_first_iff:
  assumes "pat \<noteq> []"
  shows "find_from pat (ps @ pat @ ss) i = Some (i + length ps) \<longleftrightarrow>
         \<not> sublist pat (ps @ butlast pat)"
proof (induction ps arbitrary: i)
  case Nil
  obtain x xs where "pat @ ss = x # xs" using assms by (cases "pat @ ss") auto
  moreover have "prefix pat (pat @ ss)" by simp
  ultimately have "find_from pat (pat @ ss) i = Some i" by simp
  then show ?case using longer_than_butlast [OF assms] by simp
next
  case (Cons p ps)
  have whole: "(p # ps @ butlast pat) @ ([last pat] @ ss) = p # ps @ pat @ ss"
    using assms by simp
  have "length pat \<le> length (p # ps @ butlast pat)" using assms by simp
  then have "prefix pat ((p # ps @ butlast pat) @ ([last pat] @ ss)) \<longleftrightarrow>
             prefix pat (p # ps @ butlast pat)"
    by (rule prefix_long)
  then have pre: "prefix pat (p # ps @ pat @ ss) \<longleftrightarrow> prefix pat (p # ps @ butlast pat)"
    by (simp only: whole)
  show ?case
  proof (cases "prefix pat (p # ps @ pat @ ss)")
    case True
    then have "find_from pat ((p # ps) @ pat @ ss) i = Some i" by simp
    moreover from True pre have "sublist pat ((p # ps) @ butlast pat)"
      by (simp add: sublist_Cons_right)
    ultimately show ?thesis by simp
  next
    case False
    then have "find_from pat ((p # ps) @ pat @ ss) i = find_from pat (ps @ pat @ ss) (Suc i)"
      by simp
    moreover from False pre have "sublist pat ((p # ps) @ butlast pat) \<longleftrightarrow>
        sublist pat (ps @ butlast pat)"
      by (simp add: sublist_Cons_right)
    ultimately show ?thesis using Cons.IH [of "Suc i"] by simp
  qed
qed

lemma search_literal_shift:
  assumes found: "search_literal pat body = Some m" and "pat \<noteq> []"
    and "pos \<le> fst m" and "new \<noteq> []"
    and "hd new \<notin> set (tl pat)" and "last new \<notin> set (butlast pat)"
    and "\<not> sublist pat new"
  shows "search_literal pat (insert_at pos new body) = Some (fst m + length new, m_end m + length new)"
proof -
  from search_literal_Some [OF found] obtain ps ss
    where b: "body = ps @ pat @ ss" and m: "m = (length ps, length ps + length pat)" by blast
  have "find_from pat (ps @ pat @ ss) 0 = Some (0 + length ps)"
    using found by (auto simp: search_literal_def b m split: option.splits)
  then have first: "\<not> sublist pat (ps @ butlast pat)"
    using find_from_first_iff [OF assms(2)] by blast
  let ?ps = "take pos ps @ new @ drop pos ps"
  have "\<not> sublist pat (?ps @ butlast pat)"
  proof
    assume "sublist pat (?ps @ butlast pat)"
    then have "sublist pat (take pos ps @ new @ (drop pos ps @ butlast pat))" by simp
    then have "sublist pat (take pos ps @ (drop pos ps @ butlast pat))"
      using assms(4-7) by (rule sublist_not_created_by_insert_inner)
    moreover have "take pos ps @ (drop pos ps @ butlast pat) = ps @ butlast pat"
      by (metis append_assoc append_take_drop_id)
    ultimately have "sublist pat (ps @ butlast pat)" by (simp only:)
    with first show False by contradiction
  qed
  then have "find_from pat (?ps @ pat @ ss) 0 = Some (0 + length ?ps)"
    using find_from_first_iff [OF assms(2)] by blast
  moreover have "insert_at pos new body = ?ps @ pat @ ss"
    using assms(3) by (simp add: insert_at_def b m)
  moreover have "length ?ps = length ps + length new" by simp
  ultimately show ?thesis
    by (simp add: search_literal_def m m_end_def)
qed

section \<open>The blocks of a run\<close>

lemma length_blocks:
  "length (file_refs_block g) = 539" "length (group_block g) = 178"
  "length (build_file_block g) = 476" "length (sources_block g) = 211"
  by (simp_all add: file_refs_block_def group_block_def build_file_block_def sources_block_def
      entries_def new_file_refs_run new_group_refs_run build_file_entries_run new_build_refs_run
      nl_def tab_def file_ref_line_def group_line_def build_file_entry_def sources_line_def
      length_ident_of)

lemma file_refs_block_facts:
  "file_refs_block g \<noteq> []" "hd (file_refs_block g) = CHR 0x0A"
  "last (file_refs_block g) = CHR '';''" "CHR '','' \<notin> set (file_refs_block g)"
  "\<not> sublist ''gi'' (file_refs_block g)"
  unfolding file_refs_block_def entries_def
  using file_refs_block_ends [of g] file_refs_block_no_comma [of g] file_refs_block_no_gi [of g]
  by blast+

lemma group_block_no_P:
  "CHR ''P'' \<notin> set (nl @ join nl (new_group_refs (fst (files_to_add g))))"
proof -
  have "CHR ''P'' \<notin> upper_hex" by (simp add: upper_hex_def)
  then show ?thesis
    by (simp add: new_group_refs_run nl_def group_line_chars ident_of_chars tab_def)
qed

lemma group_block_facts:
  "group_block g \<noteq> []" "hd (group_block g) = CHR 0x0A"
  "last (group_block g) = CHR '',''" "CHR ''X'' \<notin> set (group_block g)"
  "CHR ''P'' \<notin> set (group_block g)"
  unfolding group_block_def entries_def
  using group_block_ends [of g] group_block_no_X [of g] group_block_no_P [of g]
  by blast+

lemma build_file_block_facts:
  "build_file_block g \<noteq> []" "hd (build_file_block g) = CHR 0x0A"
  "last (build_file_block g) = CHR '';''" "CHR '','' \<notin> set (build_file_block g)"
  unfolding build_file_block_def entries_def
  using build_block_ends [of g] build_block_no_comma [of g]
  by blast+

section \<open>Where the anchors are after an insertion\<close>

lemma search_literal_stable_ge:
  assumes "search_literal pat body = Some m" and "m_end m \<le> pos"
  shows "search_literal pat (insert_at pos new body) = Some m"
proof -
  from search_literal_Some [OF assms(1)] obtain ps ss
    where t: "body = ps @ pat @ ss" and m: "m = (length ps, length ps + length pat)" by blast
  have "find_from pat (ps @ pat @ ss) 0 = Some (0 + length ps)"
    using assms(1) by (auto simp: search_literal_def t m split: option.splits)
  then have "find_from pat (ps @ pat @ (take (pos - m_end m) ss @ new @ drop (pos - m_end m) ss)) 0 =
      Some (0 + length ps)"
    by (rule find_from_stable)
  moreover have "insert_at pos new body =
      ps @ pat @ (take (pos - m_end m) ss @ new @ drop (pos - m_end m) ss)"
    using assms(2) by (simp add: insert_at_def m_end_def m t)
  ultimately show ?thesis by (simp add: search_literal_def m)
qed

lemma sources_anchor_facts:
  "sources_anchor \<noteq> []" "CHR 0x0A \<notin> set (tl sources_anchor)"
  "CHR '';'' \<notin> set (butlast sources_anchor)" "CHR '','' \<notin> set (butlast sources_anchor)"
  "CHR '','' \<in> set sources_anchor" "CHR ''P'' \<in> set sources_anchor"
  by (simp_all add: sources_anchor_def)

lemma group_anchor_facts:
  "group_anchor \<noteq> []" "CHR 0x0A \<notin> set (tl group_anchor)"
  "CHR '';'' \<notin> set (butlast group_anchor)" "CHR '','' \<in> set group_anchor"
  by (simp_all add: group_anchor_def)

lemma group_across_file_refs_block:
  assumes "search_group body = Some m" and "pos \<le> fst m"
  shows "search_group (insert_at pos (file_refs_block g) body) = Some (fst m + 539, m_end m + 539)"
proof -
  have "\<not> sublist group_anchor (file_refs_block g)"
    using sublist_needs_chars [of group_anchor "file_refs_block g" "CHR '',''"]
      group_anchor_facts(4) file_refs_block_facts(4) [of g] by blast
  then have "search_literal group_anchor (insert_at pos (file_refs_block g) body) =
      Some (fst m + length (file_refs_block g), m_end m + length (file_refs_block g))"
    using assms group_anchor_facts file_refs_block_facts [of g]
    unfolding search_group_def by (intro search_literal_shift) simp_all
  then show ?thesis by (simp add: search_group_def length_blocks)
qed


lemma sources_across_file_refs_block:
  assumes "search_sources body = Some m" and "pos \<le> fst m"
  shows "search_sources (insert_at pos (file_refs_block g) body) = Some (fst m + 539, m_end m + 539)"
proof -
  have "\<not> sublist sources_anchor (file_refs_block g)"
    using sublist_needs_chars [of sources_anchor "file_refs_block g" "CHR '',''"]
      sources_anchor_facts(5) file_refs_block_facts(4) [of g] by blast
  then have "search_literal sources_anchor (insert_at pos (file_refs_block g) body) =
      Some (fst m + length (file_refs_block g), m_end m + length (file_refs_block g))"
    using assms sources_anchor_facts file_refs_block_facts [of g]
    unfolding search_sources_def by (intro search_literal_shift) simp_all
  then show ?thesis by (simp add: search_sources_def length_blocks)
qed

lemma sources_across_group_block:
  assumes "search_sources body = Some m" and "pos \<le> fst m"
  shows "search_sources (insert_at pos (group_block g) body) = Some (fst m + 178, m_end m + 178)"
proof -
  have "\<not> sublist sources_anchor (group_block g)"
    using sublist_needs_chars [of sources_anchor "group_block g" "CHR ''P''"]
      sources_anchor_facts(6) group_block_facts(5) [of g] by blast
  then have "search_literal sources_anchor (insert_at pos (group_block g) body) =
      Some (fst m + length (group_block g), m_end m + length (group_block g))"
    using assms sources_anchor_facts group_block_facts [of g]
    unfolding search_sources_def by (intro search_literal_shift) simp_all
  then show ?thesis by (simp add: search_sources_def length_blocks)
qed

lemma sources_across_build_file_block:
  assumes "search_sources body = Some m" and "pos \<le> fst m"
  shows "search_sources (insert_at pos (build_file_block g) body) = Some (fst m + 476, m_end m + 476)"
proof -
  have "\<not> sublist sources_anchor (build_file_block g)"
    using sublist_needs_chars [of sources_anchor "build_file_block g" "CHR '',''"]
      sources_anchor_facts(5) build_file_block_facts(4) [of g] by blast
  then have "search_literal sources_anchor (insert_at pos (build_file_block g) body) =
      Some (fst m + length (build_file_block g), m_end m + length (build_file_block g))"
    using assms sources_anchor_facts build_file_block_facts [of g]
    unfolding search_sources_def by (intro search_literal_shift) simp_all
  then show ?thesis by (simp add: search_sources_def length_blocks)
qed

section \<open>The first two steps as insertions\<close>

lemma add_file_refs_at:
  "search_file_ref doc = Some m \<Longrightarrow>
   add_file_refs (entries g) doc = insert_at (m_end m) (file_refs_block g) doc"
  by (simp add: add_file_refs_def file_refs_block_def)

lemma add_file_refs_skipped:
  "search_file_ref doc = None \<Longrightarrow> add_file_refs (entries g) doc = doc"
  by (simp add: add_file_refs_def)

lemma add_group_refs_at:
  "search_group content = Some m \<Longrightarrow>
   add_group_refs (entries g) content = insert_at (m_end m) (group_block g) content"
  by (simp add: add_group_refs_def group_block_def)

lemma add_group_refs_skipped:
  "search_group content = None \<Longrightarrow> add_group_refs (entries g) content = content"
  by (simp add: add_group_refs_def)

lemma line_breaks_patch:
  "line_breaks (fst (patch doc g)) =
     line_breaks doc +
     (if search_file_ref doc = None then 0 else 3) +
     (if search_group (add_file_refs (entries g) doc) = None then 0 else 3) +
     (if search_sources (before_sources doc g) = None then 0
      else 3 + (if search_build_file (before_sources doc g) = None then 0 else 3))"
proof -
  have a: "line_breaks (add_file_refs (entries g) doc) =
      line_breaks doc + (if search_file_ref doc = None then 0 else 3)"
    by (cases "search_file_ref doc")
      (simp_all add: add_file_refs_at add_file_refs_skipped line_breaks_insert_at
        line_breaks_file_refs_block)
  have b: "line_breaks (before_sources doc g) =
      line_breaks (add_file_refs (entries g) doc) +
      (if search_group (add_file_refs (entries g) doc) = None then 0 else 3)"
    unfolding before_sources_def
    by (cases "search_group (add_file_refs (entries g) doc)")
      (simp_all add: add_group_refs_at add_group_refs_skipped line_breaks_insert_at
        line_breaks_group_block)
  have c: "line_breaks (after_loop doc g) =
      line_breaks (before_sources doc g) +
      (if search_build_file (before_sources doc g) = None then 0 else 3)"
    by (cases "search_build_file (before_sources doc g)")
      (simp_all add: after_loop_cases line_breaks_insert_at line_breaks_build_file_block)
  have d: "line_breaks (fst (patch doc g)) =
      (if search_sources (before_sources doc g) = None then line_breaks (before_sources doc g)
       else line_breaks (after_loop doc g) + 3)"
    by (cases "search_sources (before_sources doc g)")
      (simp_all add: patch_via_states line_breaks_insert_at line_breaks_sources_block)
  show ?thesis unfolding d c b a by simp
qed

section \<open>What the generated lines contain\<close>

lemma lines_mention_filename:
  "sublist filename (file_ref_line filename file_id)"
  "sublist filename (group_line filename file_id)"
  "sublist filename (build_file_entry build_id filename file_id)"
  "sublist filename (sources_line build_id filename)"
proof -
  have "sublist filename ((tab @ tab @ file_id @ '' /* '') @ filename @ rest)" for rest
    by (rule sublist_appendI)
  then show "sublist filename (file_ref_line filename file_id)"
    by (simp add: file_ref_line_def)
  have "sublist filename ((tab @ tab @ tab @ tab @ file_id @ '' /* '') @ filename @ rest)" for rest
    by (rule sublist_appendI)
  then show "sublist filename (group_line filename file_id)"
    by (simp add: group_line_def)
  have "sublist filename ((tab @ tab @ build_id @ '' /* '') @ filename @ rest)" for rest
    by (rule sublist_appendI)
  then show "sublist filename (build_file_entry build_id filename file_id)"
    by (simp add: build_file_entry_def)
  have "sublist filename ((tab @ tab @ tab @ tab @ build_id @ '' /* '') @ filename @ rest)" for rest
    by (rule sublist_appendI)
  then show "sublist filename (sources_line build_id filename)"
    by (simp add: sources_line_def)
qed

lemma entries_run:
  "entries g =
     [(''BlockedUsersManager.swift'', ident_of (uuid4_int (g 0))),
      (''BlockedUsersView.swift'', ident_of (uuid4_int (g (Suc 0)))),
      (''TermsOfService.swift'', ident_of (uuid4_int (g (Suc (Suc 0)))))]"
  by (simp add: entries_def files_to_add_eq)

lemma lines_of_run_mention_their_entry:
  "list_all2 (\<lambda>e line. sublist (fst e) line) (entries g) (new_file_refs (entries g))"
  "list_all2 (\<lambda>e line. sublist (fst e) line) (entries g) (new_group_refs (entries g))"
  "list_all2 (\<lambda>e line. sublist (fst e) line) (entries g)
     (build_file_entries (entries g) (snd (files_to_add g)))"
  "list_all2 (\<lambda>e line. sublist (fst e) line) (entries g)
     (new_build_refs (entries g) (snd (files_to_add g)))"
proof -
  show "list_all2 (\<lambda>e line. sublist (fst e) line) (entries g) (new_file_refs (entries g))"
    unfolding entries_def new_file_refs_run
    by (simp add: files_to_add_eq lines_mention_filename)
  show "list_all2 (\<lambda>e line. sublist (fst e) line) (entries g) (new_group_refs (entries g))"
    unfolding entries_def new_group_refs_run
    by (simp add: files_to_add_eq lines_mention_filename)
  show "list_all2 (\<lambda>e line. sublist (fst e) line) (entries g)
     (build_file_entries (entries g) (snd (files_to_add g)))"
    unfolding entries_def build_file_entries_run
    by (simp add: files_to_add_eq lines_mention_filename)
  show "list_all2 (\<lambda>e line. sublist (fst e) line) (entries g)
     (new_build_refs (entries g) (snd (files_to_add g)))"
    unfolding entries_def new_build_refs_run
    by (simp add: files_to_add_eq lines_mention_filename)
qed

lemma anchors_found_before_sources:
  assumes "search_sources doc \<noteq> None"
  shows "search_sources (before_sources doc g) \<noteq> None"
  unfolding before_sources_def using assms by (rule sources_found_after_steps)

lemma header_found_before_sources:
  assumes "search_build_file doc \<noteq> None"
  shows "search_build_file (before_sources doc g) \<noteq> None"
  unfolding before_sources_def using assms by (rule header_found_after_steps)

lemma header_absent_before_sources:
  assumes "search_build_file doc = None"
  shows "search_build_file (before_sources doc g) = None"
  unfolding before_sources_def entries_def using assms by (rule header_absent_after_steps)

section \<open>The build-phase step\<close>

text \<open>
  Claim C2. When the build-phase anchor is found, the membership lines are inserted at the
  end offset of the match that was computed before the loop, applied to the document that
  the loop returns. When the section header lies ahead of the anchor, the loop has moved
  the anchor 476 characters to the right by then, so a search repeated after the loop
  would give a different offset; the script does not repeat it.
\<close>

theorem build_phase_lines_at_offset_from_before_loop:
  assumes "search_sources (before_sources doc g) = Some sm"
  shows "fst (patch doc g) = insert_at (m_end sm) (sources_block g) (after_loop doc g) \<and>
         (\<forall>bm. search_build_file (before_sources doc g) = Some bm \<and> m_end bm \<le> fst sm \<longrightarrow>
            after_loop doc g = insert_at (m_end bm) (build_file_block g) (before_sources doc g) \<and>
            search_sources (after_loop doc g) = Some (fst sm + 476, m_end sm + 476))"
proof (intro conjI allI impI)
  show "fst (patch doc g) = insert_at (m_end sm) (sources_block g) (after_loop doc g)"
    by (simp add: patch_via_states assms)
next
  fix bm
  assume h: "search_build_file (before_sources doc g) = Some bm \<and> m_end bm \<le> fst sm"
  then show a: "after_loop doc g = insert_at (m_end bm) (build_file_block g) (before_sources doc g)"
    by (simp add: after_loop_cases)
  from h have "m_end bm \<le> fst sm" by simp
  with assms have "search_sources (insert_at (m_end bm) (build_file_block g) (before_sources doc g)) =
      Some (fst sm + 476, m_end sm + 476)"
    by (rule sources_across_build_file_block)
  then show "search_sources (after_loop doc g) = Some (fst sm + 476, m_end sm + 476)"
    by (simp only: a)
qed

lemma doc_full_matches:
  "search_file_ref doc_full = Some (66, 191)" "search_group doc_full = Some (199, 257)"
  "search_sources doc_full = Some (262, 322)" "search_build_file doc_full = Some (0, 32)"
  by code_simp+

lemma doc_full_before_sources:
  "before_sources doc_full g =
     insert_at 796 (group_block g) (insert_at 191 (file_refs_block g) doc_full)"
  "search_sources (before_sources doc_full g) = Some (979, 1039)"
  "search_build_file (before_sources doc_full g) = Some (0, 32)"
proof -
  let ?c1 = "insert_at 191 (file_refs_block g) doc_full"
  have c1: "add_file_refs (entries g) doc_full = ?c1"
    using add_file_refs_at [OF doc_full_matches(1), of g] by (simp add: m_end_def)
  have g1: "search_group ?c1 = Some (738, 796)"
    using group_across_file_refs_block [OF doc_full_matches(2), of 191 g] by (simp add: m_end_def)
  show c2: "before_sources doc_full g = insert_at 796 (group_block g) ?c1"
    using add_group_refs_at [OF g1, of g] by (simp add: before_sources_def c1 m_end_def)
  have "search_sources ?c1 = Some (801, 861)"
    using sources_across_file_refs_block [OF doc_full_matches(3), of 191 g] by (simp add: m_end_def)
  from sources_across_group_block [OF this, of 796 g]
  show "search_sources (before_sources doc_full g) = Some (979, 1039)"
    by (simp add: c2 m_end_def)
  have "search_build_file ?c1 = Some (0, 32)"
    using search_literal_stable_ge [OF doc_full_matches(4) [unfolded search_build_file_def], of 191]
    by (simp add: search_build_file_def m_end_def)
  from search_literal_stable_ge [OF this [unfolded search_build_file_def], of 796 "group_block g"]
  show "search_build_file (before_sources doc_full g) = Some (0, 32)"
    by (simp add: c2 search_build_file_def m_end_def)
qed

theorem build_phase_lines_at_offset_from_before_loop_witness:
  "search_sources (before_sources doc_full rng_a) = Some (979, 1039) \<and>
   search_build_file (before_sources doc_full rng_a) = Some (0, 32) \<and>
   fst (patch doc_full rng_a) =
     insert_at 1039 (sources_block rng_a) (after_loop doc_full rng_a) \<and>
   after_loop doc_full rng_a =
     insert_at 32 (build_file_block rng_a) (before_sources doc_full rng_a) \<and>
   search_sources (after_loop doc_full rng_a) = Some (979 + 476, 1039 + 476)"
proof -
  note sm = doc_full_before_sources(2) [of rng_a]
  note bm = doc_full_before_sources(3) [of rng_a]
  note t = build_phase_lines_at_offset_from_before_loop [OF sm]
  have le: "m_end (0 :: nat, 32 :: nat) \<le> fst (979 :: nat, 1039 :: nat)"
    by (simp add: m_end_def)
  from t have "fst (patch doc_full rng_a) =
      insert_at (m_end (979 :: nat, 1039 :: nat)) (sources_block rng_a) (after_loop doc_full rng_a)"
    by blast
  then have p: "fst (patch doc_full rng_a) =
      insert_at 1039 (sources_block rng_a) (after_loop doc_full rng_a)"
    unfolding m_end_def snd_conv .
  from t bm le have "after_loop doc_full rng_a =
      insert_at (m_end (0 :: nat, 32 :: nat)) (build_file_block rng_a) (before_sources doc_full rng_a) \<and>
      search_sources (after_loop doc_full rng_a) =
        Some (fst (979 :: nat, 1039 :: nat) + 476, m_end (979 :: nat, 1039 :: nat) + 476)"
    by blast
  then have q: "after_loop doc_full rng_a =
      insert_at 32 (build_file_block rng_a) (before_sources doc_full rng_a) \<and>
      search_sources (after_loop doc_full rng_a) = Some (979 + 476, 1039 + 476)"
    unfolding m_end_def snd_conv fst_conv .
  from sm bm p q show ?thesis by blast
qed

text \<open>
  Claim C9. When the build-phase anchor and the section header are present, every round of
  the loop inserts its declaration line right after the first occurrence of the header, so
  when the loop has ended the three lines follow the header in reverse entry order.
\<close>

theorem build_file_lines_after_header_in_reverse_order:
  assumes "search_sources doc \<noteq> None" and "search_build_file doc \<noteq> None"
  shows "\<exists>bm sm e1 e2 e3.
           search_build_file (before_sources doc g) = Some bm \<and>
           suffix build_file_header (take (m_end bm) (before_sources doc g)) \<and>
           build_file_entries (entries g) (snd (files_to_add g)) = [e1, e2, e3] \<and>
           after_loop doc g =
             take (m_end bm) (before_sources doc g) @ nl @ e3 @ nl @ e2 @ nl @ e1 @
             drop (m_end bm) (before_sources doc g) \<and>
           search_sources (before_sources doc g) = Some sm \<and>
           fst (patch doc g) = insert_at (m_end sm) (sources_block g) (after_loop doc g)"
proof -
  obtain bm where bm: "search_build_file (before_sources doc g) = Some bm"
    using header_found_before_sources [OF assms(2), of g] by auto
  obtain sm where sm: "search_sources (before_sources doc g) = Some sm"
    using anchors_found_before_sources [OF assms(1), of g] by auto
  from bm obtain ps ss where b: "before_sources doc g = ps @ build_file_header @ ss"
    and m: "m_end bm = length ps + length build_file_header"
    unfolding search_build_file_def by (auto simp: m_end_def dest!: search_literal_Some)
  have "take (m_end bm) (before_sources doc g) = ps @ build_file_header"
    by (simp add: b m)
  then have s: "suffix build_file_header (take (m_end bm) (before_sources doc g))"
    by (simp add: suffix_def)
  obtain e1 e2 e3 where e: "build_file_entries (entries g) (snd (files_to_add g)) = [e1, e2, e3]"
    by (simp add: entries_def build_file_entries_run)
  have "after_loop doc g = insert_at (m_end bm) (build_file_block g) (before_sources doc g)"
    by (simp add: after_loop_cases bm)
  moreover have "build_file_block g = nl @ e3 @ nl @ e2 @ nl @ e1"
    by (simp add: build_file_block_def e)
  ultimately have a: "after_loop doc g =
      take (m_end bm) (before_sources doc g) @ nl @ e3 @ nl @ e2 @ nl @ e1 @
      drop (m_end bm) (before_sources doc g)"
    by (simp add: insert_at_def)
  have "fst (patch doc g) = insert_at (m_end sm) (sources_block g) (after_loop doc g)"
    by (simp add: patch_via_states sm)
  with bm s e a sm show ?thesis by blast
qed

theorem build_file_lines_after_header_in_reverse_order_witness:
  "search_sources doc_full \<noteq> None \<and> search_build_file doc_full \<noteq> None \<and>
   (\<exists>bm sm e1 e2 e3.
      search_build_file (before_sources doc_full rng_a) = Some bm \<and>
      suffix build_file_header (take (m_end bm) (before_sources doc_full rng_a)) \<and>
      build_file_entries (entries rng_a) (snd (files_to_add rng_a)) = [e1, e2, e3] \<and>
      after_loop doc_full rng_a =
        take (m_end bm) (before_sources doc_full rng_a) @ nl @ e3 @ nl @ e2 @ nl @ e1 @
        drop (m_end bm) (before_sources doc_full rng_a) \<and>
      search_sources (before_sources doc_full rng_a) = Some sm \<and>
      fst (patch doc_full rng_a) =
        insert_at (m_end sm) (sources_block rng_a) (after_loop doc_full rng_a))"
proof -
  have h1: "search_sources doc_full \<noteq> None" by (simp add: doc_full_matches)
  have h2: "search_build_file doc_full \<noteq> None" by (simp add: doc_full_matches)
  from build_file_lines_after_header_in_reverse_order [OF h1 h2, of rng_a] h1 h2
  show ?thesis by blast
qed

section \<open>All anchors present, or some missing\<close>

lemma block_line_counts:
  "length (new_file_refs (entries g)) = 3" "length (new_group_refs (entries g)) = 3"
  "length (build_file_entries (entries g) (snd (files_to_add g))) = 3"
  "length (new_build_refs (entries g) (snd (files_to_add g))) = 3"
  by (simp_all add: entries_def new_file_refs_run new_group_refs_run build_file_entries_run
      new_build_refs_run)

lemma doc_no_header_matches:
  "search_file_ref doc_no_header \<noteq> None" "search_group doc_no_header \<noteq> None"
  "search_sources doc_no_header \<noteq> None" "search_build_file doc_no_header = None"
  by code_simp+

lemma doc_no_group_matches:
  "search_file_ref doc_no_group \<noteq> None" "search_group doc_no_group = None"
  "search_sources doc_no_group \<noteq> None" "search_build_file doc_no_group \<noteq> None"
  by code_simp+

text \<open>
  Claim C1, as stated, fails for a document that has the three anchors but not the
  section header of the build-file declarations: the loop then leaves the document as it
  is, and the run adds nine lines, not twelve.
\<close>

theorem three_anchors_without_header_counterexample:
  "search_file_ref doc_no_header \<noteq> None \<and> search_group doc_no_header \<noteq> None \<and>
   search_sources doc_no_header \<noteq> None \<and>
   after_loop doc_no_header rng_a = before_sources doc_no_header rng_a \<and>
   line_breaks (fst (patch doc_no_header rng_a)) = line_breaks doc_no_header + 9"
proof -
  have h: "search_build_file (before_sources doc_no_header rng_a) = None"
    using doc_no_header_matches(4) by (rule header_absent_before_sources)
  then have a: "after_loop doc_no_header rng_a = before_sources doc_no_header rng_a"
    by (simp add: after_loop_cases)
  have g: "search_group (add_file_refs (entries rng_a) doc_no_header) \<noteq> None"
    using doc_no_header_matches(2) by (rule group_found_after_file_refs)
  have s: "search_sources (before_sources doc_no_header rng_a) \<noteq> None"
    using doc_no_header_matches(3) by (rule anchors_found_before_sources)
  have "line_breaks (fst (patch doc_no_header rng_a)) = line_breaks doc_no_header + 9"
    using doc_no_header_matches(1) g s h by (simp add: line_breaks_patch)
  with a doc_no_header_matches(1-3) show ?thesis by blast
qed

text \<open>
  Claim C1, amended. For every document that contains the three anchors and the section
  header of the build-file declarations, the run is a sequence of four insertions: the
  block of three reference-declaration lines after the first anchor, the block of three
  group-membership lines after the second, the block of three build-file-declaration lines
  after the header, and the block of three build-phase-membership lines at the offset of
  claim C2 (which may lie inside text inserted before). Every line holds the name of its
  entry, and the document gains exactly twelve line breaks.
\<close>

theorem all_anchors_and_header_give_twelve_lines:
  assumes "search_file_ref doc \<noteq> None" and "search_group doc \<noteq> None"
    and "search_sources doc \<noteq> None" and "search_build_file doc \<noteq> None"
  shows "(\<exists>m1 m2 bm sm.
            search_file_ref doc = Some m1 \<and>
            search_group (insert_at (m_end m1) (file_refs_block g) doc) = Some m2 \<and>
            before_sources doc g =
              insert_at (m_end m2) (group_block g) (insert_at (m_end m1) (file_refs_block g) doc) \<and>
            search_build_file (before_sources doc g) = Some bm \<and>
            after_loop doc g = insert_at (m_end bm) (build_file_block g) (before_sources doc g) \<and>
            search_sources (before_sources doc g) = Some sm \<and>
            fst (patch doc g) = insert_at (m_end sm) (sources_block g) (after_loop doc g)) \<and>
         length (new_file_refs (entries g)) = 3 \<and>
         length (new_group_refs (entries g)) = 3 \<and>
         length (build_file_entries (entries g) (snd (files_to_add g))) = 3 \<and>
         length (new_build_refs (entries g) (snd (files_to_add g))) = 3 \<and>
         list_all2 (\<lambda>e line. sublist (fst e) line) (entries g) (new_file_refs (entries g)) \<and>
         list_all2 (\<lambda>e line. sublist (fst e) line) (entries g) (new_group_refs (entries g)) \<and>
         list_all2 (\<lambda>e line. sublist (fst e) line) (entries g)
           (build_file_entries (entries g) (snd (files_to_add g))) \<and>
         list_all2 (\<lambda>e line. sublist (fst e) line) (entries g)
           (new_build_refs (entries g) (snd (files_to_add g))) \<and>
         line_breaks (fst (patch doc g)) = line_breaks doc + 12"
proof -
  obtain m1 where m1: "search_file_ref doc = Some m1" using assms(1) by auto
  let ?c1 = "insert_at (m_end m1) (file_refs_block g) doc"
  have c1: "add_file_refs (entries g) doc = ?c1" using m1 by (rule add_file_refs_at)
  have gf: "search_group (add_file_refs (entries g) doc) \<noteq> None"
    using assms(2) by (rule group_found_after_file_refs)
  then obtain m2 where m2: "search_group ?c1 = Some m2" by (auto simp: c1)
  have c2: "before_sources doc g = insert_at (m_end m2) (group_block g) ?c1"
    using add_group_refs_at [OF m2, of g] by (simp add: before_sources_def c1)
  have bf: "search_build_file (before_sources doc g) \<noteq> None"
    using assms(4) by (rule header_found_before_sources)
  then obtain bm where bm: "search_build_file (before_sources doc g) = Some bm" by auto
  have al: "after_loop doc g = insert_at (m_end bm) (build_file_block g) (before_sources doc g)"
    by (simp add: after_loop_cases bm)
  have sf: "search_sources (before_sources doc g) \<noteq> None"
    using assms(3) by (rule anchors_found_before_sources)
  then obtain sm where sm: "search_sources (before_sources doc g) = Some sm" by auto
  have p: "fst (patch doc g) = insert_at (m_end sm) (sources_block g) (after_loop doc g)"
    by (simp add: patch_via_states sm)
  have steps: "\<exists>m1 m2 bm sm.
      search_file_ref doc = Some m1 \<and>
      search_group (insert_at (m_end m1) (file_refs_block g) doc) = Some m2 \<and>
      before_sources doc g =
        insert_at (m_end m2) (group_block g) (insert_at (m_end m1) (file_refs_block g) doc) \<and>
      search_build_file (before_sources doc g) = Some bm \<and>
      after_loop doc g = insert_at (m_end bm) (build_file_block g) (before_sources doc g) \<and>
      search_sources (before_sources doc g) = Some sm \<and>
      fst (patch doc g) = insert_at (m_end sm) (sources_block g) (after_loop doc g)"
    using m1 m2 c2 bm al sm p by blast
  have twelve: "line_breaks (fst (patch doc g)) = line_breaks doc + 12"
    using assms(1) gf sf bf by (simp add: line_breaks_patch)
  from steps twelve block_line_counts [of g] lines_of_run_mention_their_entry [of g]
  show ?thesis by blast
qed

theorem all_anchors_and_header_give_twelve_lines_witness:
  "search_file_ref doc_full \<noteq> None \<and> search_group doc_full \<noteq> None \<and>
   search_sources doc_full \<noteq> None \<and> search_build_file doc_full \<noteq> None \<and>
   fst (patch doc_full rng_a) =
     insert_at 1039 (sources_block rng_a)
       (insert_at 32 (build_file_block rng_a)
          (insert_at 796 (group_block rng_a) (insert_at 191 (file_refs_block rng_a) doc_full))) \<and>
   line_breaks (fst (patch doc_full rng_a)) = line_breaks doc_full + 12"
proof -
  have h: "search_file_ref doc_full \<noteq> None" "search_group doc_full \<noteq> None"
    "search_sources doc_full \<noteq> None" "search_build_file doc_full \<noteq> None"
    by (simp_all add: doc_full_matches)
  note t = all_anchors_and_header_give_twelve_lines [OF h, of rng_a]
  from t obtain bm sm where
    bm: "search_build_file (before_sources doc_full rng_a) = Some bm" and
    al: "after_loop doc_full rng_a =
       insert_at (m_end bm) (build_file_block rng_a) (before_sources doc_full rng_a)" and
    sm: "search_sources (before_sources doc_full rng_a) = Some sm" and
    pt: "fst (patch doc_full rng_a) = insert_at (m_end sm) (sources_block rng_a) (after_loop doc_full rng_a)"
    by blast
  from bm sm have "m_end bm = 32" "m_end sm = 1039"
    by (auto simp: doc_full_before_sources(2,3) m_end_def)
  with al pt have "fst (patch doc_full rng_a) =
     insert_at 1039 (sources_block rng_a)
       (insert_at 32 (build_file_block rng_a) (before_sources doc_full rng_a))"
    by simp
  then have p: "fst (patch doc_full rng_a) =
     insert_at 1039 (sources_block rng_a)
       (insert_at 32 (build_file_block rng_a)
          (insert_at 796 (group_block rng_a) (insert_at 191 (file_refs_block rng_a) doc_full)))"
    by (simp only: doc_full_before_sources(1))
  from t have "line_breaks (fst (patch doc_full rng_a)) = line_breaks doc_full + 12" by blast
  with h p show ?thesis by blast
qed

text \<open>
  Claim C4. When the group-membership anchor is missing while the other two anchors are
  present, the reference declarations and the build-phase lines are still inserted, and the
  group step changes nothing: the document that enters the build-phase step is the input
  with the reference declarations only.
\<close>

theorem missing_group_anchor_skips_only_group_step:
  assumes "search_file_ref doc \<noteq> None" and "search_group doc = None"
    and "search_sources doc \<noteq> None"
  shows "\<exists>m1 sm.
           search_file_ref doc = Some m1 \<and>
           search_group (insert_at (m_end m1) (file_refs_block g) doc) = None \<and>
           before_sources doc g = insert_at (m_end m1) (file_refs_block g) doc \<and>
           search_sources (before_sources doc g) = Some sm \<and>
           fst (patch doc g) = insert_at (m_end sm) (sources_block g) (after_loop doc g) \<and>
           line_breaks (fst (patch doc g)) =
             line_breaks doc + 6 + (if search_build_file doc = None then 0 else 3)"
proof -
  obtain m1 where m1: "search_file_ref doc = Some m1" using assms(1) by auto
  let ?c1 = "insert_at (m_end m1) (file_refs_block g) doc"
  have c1: "add_file_refs (entries g) doc = ?c1" using m1 by (rule add_file_refs_at)
  have "search_group (add_file_refs (fst (files_to_add g)) doc) = None"
    using assms(2) by (rule group_absent_after_file_refs)
  then have gn: "search_group (add_file_refs (entries g) doc) = None"
    by (simp add: entries_def)
  then have gn': "search_group ?c1 = None" by (simp add: c1)
  have c2: "before_sources doc g = ?c1"
    using gn by (simp add: before_sources_def add_group_refs_skipped c1)
  have sf: "search_sources (before_sources doc g) \<noteq> None"
    using assms(3) by (rule anchors_found_before_sources)
  then obtain sm where sm: "search_sources (before_sources doc g) = Some sm" by auto
  have p: "fst (patch doc g) = insert_at (m_end sm) (sources_block g) (after_loop doc g)"
    by (simp add: patch_via_states sm)
  have hd: "search_build_file (before_sources doc g) = None \<longleftrightarrow> search_build_file doc = None"
    using header_found_before_sources [of doc g] header_absent_before_sources [of doc g]
    by blast
  have e1: "(if search_file_ref doc = None then 0 else 3) = (3 :: nat)"
    using assms(1) by simp
  have e2: "(if search_group (add_file_refs (entries g) doc) = None then 0 else 3) = (0 :: nat)"
    using gn by simp
  have e3: "(if search_build_file (before_sources doc g) = None then 0 else 3) =
      (if search_build_file doc = None then 0 else (3 :: nat))"
    using hd by (cases "search_build_file doc = None") auto
  have e4: "(if search_sources (before_sources doc g) = None then 0 else 3 + k) = 3 + k"
    for k :: nat
    using sf by simp
  have "line_breaks (fst (patch doc g)) =
      line_breaks doc + 6 + (if search_build_file doc = None then 0 else 3)"
    unfolding line_breaks_patch e1 e2 e3 e4 by simp
  with m1 gn' c2 sm p show ?thesis by blast
qed

theorem missing_group_anchor_skips_only_group_step_witness:
  "search_file_ref doc_no_group \<noteq> None \<and> search_group doc_no_group = None \<and>
   search_sources doc_no_group \<noteq> None \<and>
   (\<exists>m1 sm.
      search_file_ref doc_no_group = Some m1 \<and>
      search_group (insert_at (m_end m1) (file_refs_block rng_a) doc_no_group) = None \<and>
      before_sources doc_no_group rng_a = insert_at (m_end m1) (file_refs_block rng_a) doc_no_group \<and>
      search_sources (before_sources doc_no_group rng_a) = Some sm \<and>
      fst (patch doc_no_group rng_a) =
        insert_at (m_end sm) (sources_block rng_a) (after_loop doc_no_group rng_a) \<and>
      line_breaks (fst (patch doc_no_group rng_a)) = line_breaks doc_no_group + 6 + 3)"
proof -
  note h = doc_no_group_matches
  from missing_group_anchor_skips_only_group_step [OF h(1) h(2) h(3), of rng_a] h
  show ?thesis by simp
qed

end
